theory Spec2Isabelle
  imports Complex_Main "HOL-Library.AList" "HOL-Library.Multiset"
begin

section \<open>V-carve toolpaths: width-to-depth calculators, wire assembly and sequencing\<close>

text \<open>
  A shallow embedding of \<^verbatim>\<open>PathScripts/PathWidthToDepth.py\<close> and of the wire
  functions of \<^verbatim>\<open>PathScripts/PathVcarve.py\<close>.

  Python floats are modelled as real numbers: \<^verbatim>\<open>math.tan\<close>, \<^verbatim>\<open>math.radians\<close> and
  \<^verbatim>\<open>math.sqrt\<close> are the real functions, and results that the tests compare with
  \<^verbatim>\<open>assertRoughly\<close> are exact here. Every \<^verbatim>\<open>raise\<close> of the source is a value
  \<open>Inl e\<close> of a sum type.
\<close>

subsection \<open>Errors\<close>

datatype error =
    NameError
  | ZeroDivisionError
  | ValueError
  | KeyError
  | IndexError
  | TypeError
  | External string

subsection \<open>PathWidthToDepth: the calculators\<close>

text \<open>
  The three calculator classes. A conical calculator has the attributes
  \<^verbatim>\<open>rMax, rMin, scale, zOff, start, stop\<close>, a spherical one
  \<^verbatim>\<open>rMax, r_squared, start, stop\<close>, the unsupported one has none.
\<close>

datatype calculator =
    Conical (rMax: real) (rMin: real) (scale: real) (zOff: real) (start: real) (stop: real)
  | Spherical (rMax: real) (r_squared: real) (start: real) (stop: real)
  | Unsupported

definition radians :: "real \<Rightarrow> real" where
  "radians x = x * pi / 180"

fun SetLimits :: "calculator \<Rightarrow> real \<Rightarrow> real \<Rightarrow> calculator" where
  "SetLimits (Conical rMax' rMin' scale' zOff' start' stop') zStart zFinal =
     (let start'' = zStart + zOff';
          zStop = zStart - rMax' * scale'
      in Conical rMax' rMin' scale' zOff' start'' (max (zStop + zOff') zFinal))"
| "SetLimits (Spherical rMax' r_squared' start' stop') zStart zFinal =
     (let start'' = zStart;
          zStop = zStart - rMax'
      in Spherical rMax' r_squared' start'' (max zStop zFinal))"
| "SetLimits Unsupported zStart zFinal = Unsupported"

text \<open>
  \<^verbatim>\<open>ConicalWidthToDepthCalculator.__init__\<close>. The division \<^verbatim>\<open>1.0 / toolangle\<close>
  raises \<^verbatim>\<open>ZeroDivisionError\<close> when the tangent is 0. At a pole of the tangent (a half
  angle of 90 degrees plus a multiple of 180) the real tangent has no value and
  \<^term>\<open>tan\<close> is 0 there, so the model gives the same error; the theorems below do not
  rely on that case.
\<close>

definition Conical_init :: "real \<Rightarrow> real \<Rightarrow> real \<Rightarrow> error + calculator" where
  "Conical_init Diameter TipDiameter CuttingEdgeAngle =
     (let rMax' = Diameter / 2;
          rMin' = TipDiameter / 2;
          toolangle = tan (radians (CuttingEdgeAngle / 2))
      in if toolangle = 0 then Inl ZeroDivisionError
         else let scale' = 1 / toolangle;
                  zOff' = rMin' * scale'
              in Inr (SetLimits (Conical rMax' rMin' scale' zOff' 0 0) 0 0))"

definition Spherical_init :: "real \<Rightarrow> calculator" where
  "Spherical_init Diameter =
     (let rMax' = Diameter / 2;
          r_squared' = rMax' ^ 2
      in SetLimits (Spherical rMax' r_squared' 0 0) 0 0)"

text \<open>
  \<^verbatim>\<open>WidthToDepth\<close>. \<^verbatim>\<open>math.sqrt\<close> raises \<^verbatim>\<open>ValueError\<close> on a negative argument;
  the source has no guard of its own before the call.
\<close>

definition math_sqrt :: "real \<Rightarrow> error + real" where
  "math_sqrt x = (if x < 0 then Inl ValueError else Inr (sqrt x))"

fun WidthToDepth :: "calculator \<Rightarrow> real \<Rightarrow> error + real" where
  "WidthToDepth (Conical rMax' rMin' scale' zOff' start' stop') width =
     (let depth = width * scale' in Inr (max (start' - depth) stop'))"
| "WidthToDepth (Spherical rMax' r_squared' start' stop') width =
     (if width < rMax' then
        (case math_sqrt (r_squared' - width ^ 2) of
           Inl e \<Rightarrow> Inl e
         | Inr s \<Rightarrow> Inr (max (start' - (rMax' - s)) stop'))
      else Inr (max (start' - rMax') stop'))"
| "WidthToDepth Unsupported width = Inr 0"

fun IsLinear :: "calculator \<Rightarrow> bool" where
  "IsLinear (Conical _ _ _ _ _ _) = True"
| "IsLinear (Spherical _ _ _ _) = False"
| "IsLinear Unsupported = True"

fun SupportsVcarve :: "calculator \<Rightarrow> bool" where
  "SupportsVcarve (Conical _ _ _ _ _ _) = True"
| "SupportsVcarve (Spherical _ _ _ _) = True"
| "SupportsVcarve Unsupported = False"

subsection \<open>PathWidthToDepth: the factory function\<close>

record tool =
  Diameter :: real
  TipDiameter :: real
  CuttingEdgeAngle :: real

text \<open>
  The names bound at module level in \<^verbatim>\<open>PathWidthToDepth.py\<close>: its two imports, the
  four classes, and the factory function, which rebinds \<^verbatim>\<open>WidthToDepthCalculator\<close>.
  A name that is neither local nor in this list (nor a builtin) raises
  \<^verbatim>\<open>NameError\<close> when it is evaluated.
\<close>

definition module_names :: "string list" where
  "module_names =
     [''FreeCAD'', ''math'', ''WidthToDepthCalculator'', ''ConicalWidthToDepthCalculator'',
      ''SphericalWidthToDepthCalculator'', ''UnsupportedBitToDepthCalculator'']"

definition resolve_name :: "string \<Rightarrow> error + unit" where
  "resolve_name n = (if n \<in> set module_names then Inr () else Inl NameError)"

definition endswith :: "string \<Rightarrow> string \<Rightarrow> bool" where
  "endswith s suf = (length suf \<le> length s \<and> drop (length s - length suf) s = suf)"

text \<open>
  The factory returns the calculator together with the lines it printed with
  \<^verbatim>\<open>FreeCAD.Console.PrintError\<close>. The argument of \<^verbatim>\<open>PrintError\<close> is evaluated before
  the call, and it starts with the name \<^verbatim>\<open>translate\<close>.
\<close>

definition WidthToDepthCalculator ::
    "tool \<Rightarrow> string \<Rightarrow> real \<Rightarrow> real \<Rightarrow> error + (string list \<times> calculator)" where
  "WidthToDepthCalculator tool bitShape zStart zFinal =
     (if endswith bitShape ''v-bit.fcstd'' then
        (if CuttingEdgeAngle tool \<ge> 180 then
           (case resolve_name ''translate'' of
              Inl e \<Rightarrow> Inl e
            | Inr _ \<Rightarrow>
                Inr ([''Engraver Cutting Edge Angle must be < 180 degrees.''],
                     SetLimits Unsupported zStart zFinal))
         else
           (case Conical_init (Diameter tool) (TipDiameter tool) (CuttingEdgeAngle tool) of
              Inl e \<Rightarrow> Inl e
            | Inr c \<Rightarrow> Inr ([], SetLimits c zStart zFinal)))
      else if endswith bitShape ''ballend.fcstd'' then
        Inr ([], SetLimits (Spherical_init (Diameter tool)) zStart zFinal)
      else Inr ([], SetLimits Unsupported zStart zFinal))"

subsection \<open>Vectors, diagram vertices and half-edges\<close>

text \<open>
  Modelled from the spec: \<^verbatim>\<open>FreeCAD.Vector\<close> belongs to the base library, which is not
  among the modelled files. The spec speaks of the distance from the current position to
  an end point and of the midpoint between two points; a vector is its three coordinates,
  \<^verbatim>\<open>distanceToPoint\<close> the Euclidean distance, and \<^verbatim>\<open>sub\<close>, \<^verbatim>\<open>add\<close> and \<^verbatim>\<open>scale\<close>
  work on each coordinate.
\<close>

type_synonym vector = "real \<times> real \<times> real"

definition distanceToPoint :: "vector \<Rightarrow> vector \<Rightarrow> real" where
  "distanceToPoint a b =
     (case a of (ax, ay, az) \<Rightarrow> case b of (bx, by, bz) \<Rightarrow>
        sqrt ((ax - bx) ^ 2 + (ay - by) ^ 2 + (az - bz) ^ 2))"

definition Vector_sub :: "vector \<Rightarrow> vector \<Rightarrow> vector" where
  "Vector_sub a b =
     (case a of (ax, ay, az) \<Rightarrow> case b of (bx, by, bz) \<Rightarrow> (ax - bx, ay - by, az - bz))"

definition Vector_add :: "vector \<Rightarrow> vector \<Rightarrow> vector" where
  "Vector_add a b =
     (case a of (ax, ay, az) \<Rightarrow> case b of (bx, by, bz) \<Rightarrow> (ax + bx, ay + by, az + bz))"

definition Vector_scale :: "vector \<Rightarrow> real \<Rightarrow> real \<Rightarrow> real \<Rightarrow> vector" where
  "Vector_scale a fx fy fz = (case a of (ax, ay, az) \<Rightarrow> (ax * fx, ay * fy, az * fz))"

text \<open>
  Modelled from the spec: the vertices and edges of a diagram are objects of the Voronoi
  binding, which is not among the modelled files. After the spec, a vertex has an id and
  a point in the plane, and an edge is a "directed half-edge with a paired Twin (opposite
  direction), endpoint vertex ids, a classification tag" and "per-endpoint clearance
  distances" (\<^verbatim>\<open>getDistances()\<close>). An edge value carries the index and the colour of
  its twin, so that \<open>Twin\<close> is a function of the edge: the twin has the end vertices (and
  distances) exchanged, and the twin of the twin is the edge itself. Edges without an end
  vertex (the infinite edges of a diagram) are not modelled.
\<close>

datatype vertex = Vertex (Index: nat) (X: real) (Y: real)

definition toPoint :: "vertex \<Rightarrow> vector" where
  "toPoint v = (X v, Y v, 0)"

datatype edge =
  Edge (Index: nat) (Color: nat) (Vertices: "vertex \<times> vertex")
       (getDistances: "real \<times> real") (TwinIndex: nat) (TwinColor: nat)

definition Twin :: "edge \<Rightarrow> edge" where
  "Twin e = Edge (TwinIndex e) (TwinColor e) (prod.swap (Vertices e))
                 (prod.swap (getDistances e)) (Index e) (Color e)"

datatype diagram = Diagram (Edges: "edge list")

definition PRIMARY :: nat where "PRIMARY = 0"
definition SECONDARY :: nat where "SECONDARY = 1"
definition EXTERIOR1 :: nat where "EXTERIOR1 = 2"
definition EXTERIOR2 :: nat where "EXTERIOR2 = 3"
definition COLINEAR :: nat where "COLINEAR = 4"
definition TWIN :: nat where "TWIN = 5"

subsection \<open>PathVcarve: \<^verbatim>\<open>_collectVoronoiWires\<close>\<close>

text \<open>
  The dictionary \<^verbatim>\<open>vertex\<close> maps a vertex index to the list of the edges at that
  vertex. It is an association list in insertion order, the order in which Python
  iterates over a dictionary; an update of a present key keeps its place.
\<close>

type_synonym adjacency = "(nat \<times> edge list) list"

text \<open>\<^verbatim>\<open>j = vertex.get(i, []); j.append(e); vertex[i] = j\<close>\<close>

definition add_edge :: "adjacency \<Rightarrow> nat \<Rightarrow> edge \<Rightarrow> adjacency" where
  "add_edge vertex i e =
     (let j = (case map_of vertex i of None \<Rightarrow> [] | Some es \<Rightarrow> es)
      in AList.update i (j @ [e]) vertex)"

fun build_vertex :: "edge list \<Rightarrow> adjacency \<Rightarrow> adjacency" where
  "build_vertex [] vertex = vertex"
| "build_vertex (e # es) vertex =
     build_vertex es
       (add_edge (add_edge vertex (vertex.Index (fst (Vertices e))) e)
                 (vertex.Index (snd (Vertices e))) e)"

text \<open>
  The knots: the vertices with one edge, then those with more than two; when there are
  none, the first vertex of the dictionary that has an edge.
\<close>

definition initial_knots :: "adjacency \<Rightarrow> nat list" where
  "initial_knots vertex =
     (let knots = map fst (filter (\<lambda>(i, es). length es = 1) vertex)
                  @ map fst (filter (\<lambda>(i, es). length es > 2) vertex)
      in if knots = [] then
           (case filter (\<lambda>(i, es). length es > 0) vertex of
              [] \<Rightarrow> knots
            | (i, es) # _ \<Rightarrow> knots @ [i])
         else knots)"

text \<open>\<^verbatim>\<open>vertex[v]\<close> raises \<^verbatim>\<open>KeyError\<close> for a key that is not in the dictionary.\<close>

definition lookup :: "adjacency \<Rightarrow> nat \<Rightarrow> error + edge list" where
  "lookup vertex v = (case map_of vertex v of None \<Rightarrow> Inl KeyError | Some es \<Rightarrow> Inr es)"

definition consume :: "adjacency \<Rightarrow> nat \<Rightarrow> edge \<Rightarrow> error + (adjacency \<times> bool)" where
  "consume vertex v edge =
     (case lookup vertex v of
        Inl err \<Rightarrow> Inl err
      | Inr es \<Rightarrow>
          (let es' = filter (\<lambda>e. Index e \<noteq> Index edge) es
           in Inr (AList.update v es' vertex, length es' = 0)))"

text \<open>
  \<^verbatim>\<open>traverse(vStart, edge, edges)\<close> returns the new dictionary, the wire with the edge
  appended, and the next vertex (\<open>None\<close> when the end vertex has no edge left).
\<close>

definition traverse ::
    "adjacency \<Rightarrow> nat \<Rightarrow> edge \<Rightarrow> edge list \<Rightarrow> error + (adjacency \<times> edge list \<times> nat option)" where
  "traverse vertex vStart edge edges =
     (let (vEnd, edges') =
            (if vStart = vertex.Index (fst (Vertices edge))
             then (vertex.Index (snd (Vertices edge)), edges @ [edge])
             else (vertex.Index (fst (Vertices edge)), edges @ [Twin edge]))
      in case consume vertex vStart edge of
           Inl err \<Rightarrow> Inl err
         | Inr (vertex1, _) \<Rightarrow>
             (case consume vertex1 vEnd edge of
                Inl err \<Rightarrow> Inl err
              | Inr (vertex2, emptied) \<Rightarrow>
                  Inr (vertex2, edges', if emptied then None else Some vEnd)))"

definition total_edges :: "adjacency \<Rightarrow> nat" where
  "total_edges vertex = sum_list (map (\<lambda>(i, es). length es) vertex)"

text \<open>
  The inner loop \<^verbatim>\<open>while vStart is not None\<close>. Each round takes an edge out of the
  dictionary, so the number of entries left is a measure for it.
\<close>

lemma total_edges_update:
  "map_of al k = Some es \<Longrightarrow>
   total_edges (AList.update k es' al) + length es = total_edges al + length es'"
  by (induction al) (auto simp: total_edges_def)

lemma consume_total_edges:
  assumes "consume vertex v edge = Inr (vertex', b)"
  shows "total_edges vertex' \<le> total_edges vertex"
proof -
  let ?es' = "\<lambda>es. filter (\<lambda>e. Index e \<noteq> Index edge) es"
  from assms obtain es where es: "map_of vertex v = Some es"
    and v': "vertex' = AList.update v (?es' es) vertex"
    by (auto simp: consume_def lookup_def Let_def split: option.splits)
  have "length (?es' es) \<le> length es" by simp
  moreover note total_edges_update [OF es, of "?es' es"]
  ultimately show ?thesis unfolding v' by linarith
qed

lemma consume_total_edges_less:
  assumes "consume vertex v edge = Inr (vertex', b)"
    and "lookup vertex v = Inr es" and "edge \<in> set es"
  shows "total_edges vertex' < total_edges vertex"
proof -
  let ?es' = "filter (\<lambda>e. Index e \<noteq> Index edge) es"
  from assms have es: "map_of vertex v = Some es"
    and v': "vertex' = AList.update v ?es' vertex"
    by (auto simp: consume_def lookup_def Let_def split: option.splits)
  have "length ?es' < length es"
    using assms(3) by (intro length_filter_less[of edge]) auto
  moreover note total_edges_update [OF es, of ?es']
  ultimately show ?thesis unfolding v' by linarith
qed

lemma traverse_total_edges_less:
  assumes "traverse vertex v edge we = Inr (vertex', we', vNext)"
    and "lookup vertex v = Inr es" and "edge \<in> set es"
  shows "total_edges vertex' < total_edges vertex"
proof -
  from assms(1) obtain vertex1 b1 vEnd b2 where
    c1: "consume vertex v edge = Inr (vertex1, b1)" and
    c2: "consume vertex1 vEnd edge = Inr (vertex', b2)"
    by (auto simp: traverse_def Let_def split: if_splits sum.splits prod.splits)
  from consume_total_edges_less [OF c1 assms(2,3)] consume_total_edges [OF c2]
  show ?thesis by linarith
qed

function walk ::
    "adjacency \<Rightarrow> nat option \<Rightarrow> nat \<Rightarrow> edge list \<Rightarrow> error + (adjacency \<times> nat \<times> edge list)" where
  "walk vertex vStart vLast we =
     (case vStart of
        None \<Rightarrow> Inr (vertex, vLast, we)
      | Some v \<Rightarrow>
          (case lookup vertex v of
             Inl err \<Rightarrow> Inl err
           | Inr edges \<Rightarrow>
               (case edges of
                  [] \<Rightarrow> Inr (vertex, v, we)
                | edge # _ \<Rightarrow>
                    (case traverse vertex v edge we of
                       Inl err \<Rightarrow> Inl err
                     | Inr (vertex', we', vNext) \<Rightarrow> walk vertex' vNext v we'))))"
  by pat_completeness auto
termination walk
  by (relation "measure (\<lambda>(vertex, vStart, vLast, we). total_edges vertex)")
     (auto dest: traverse_total_edges_less)


lemma walk_total_edges:
  "walk vertex vStart vLast we = Inr (vertex', vLast', we') \<Longrightarrow>
   total_edges vertex' \<le> total_edges vertex"
proof (induction vertex vStart vLast we rule: walk.induct)
  case (1 vertex vStart vLast we)
  show ?case
  proof (cases vStart)
    case None
    with "1.prems" show ?thesis by simp
  next
    case (Some v)
    show ?thesis
    proof (cases "lookup vertex v")
      case (Inl err)
      with Some "1.prems" show ?thesis by simp
    next
      case (Inr edges)
      show ?thesis
      proof (cases edges)
        case Nil
        with Some Inr "1.prems" show ?thesis by simp
      next
        case (Cons edge rest)
        show ?thesis
        proof (cases "traverse vertex v edge we")
          case (Inl err)
          with Some Inr Cons "1.prems" show ?thesis by simp
        next
          case tr: (Inr r)
          obtain vertex1 we1 vNext where r: "r = (vertex1, we1, vNext)"
            by (cases r) auto
          from Some Inr Cons tr r "1.prems"
          have w: "walk vertex1 vNext v we1 = Inr (vertex', vLast', we')" by simp
          have "total_edges vertex' \<le> total_edges vertex1"
            using "1.IH" [OF Some Inr Cons tr [unfolded r] refl refl w] .
          moreover have "total_edges vertex1 < total_edges vertex"
            using traverse_total_edges_less [OF tr [unfolded r] Inr] Cons by simp
          ultimately show ?thesis by linarith
        qed
      qed
    qed
  qed
qed

lemma walk_total_edges_less:
  assumes "walk vertex (Some v) vLast we = Inr (vertex', vLast', we')"
    and "lookup vertex v = Inr (edge # rest)"
  shows "total_edges vertex' < total_edges vertex"
proof -
  from assms obtain vertex1 we1 vNext where
    tr: "traverse vertex v edge we = Inr (vertex1, we1, vNext)" and
    w: "walk vertex1 vNext v we1 = Inr (vertex', vLast', we')"
    by (auto split: sum.splits)
  from traverse_total_edges_less [OF tr assms(2)] walk_total_edges [OF w]
  show ?thesis by simp
qed

text \<open>One round of the outer \<^verbatim>\<open>while knots:\<close> loop, for a non-empty list of knots.\<close>

definition collect_step ::
    "adjacency \<Rightarrow> nat list \<Rightarrow> edge list list \<Rightarrow> error + (adjacency \<times> nat list \<times> edge list list)" where
  "collect_step vertex knots wires =
     (let vFirst = hd knots in
      case lookup vertex vFirst of
        Inl err \<Rightarrow> Inl err
      | Inr es \<Rightarrow>
          (case (if length es > 0 then
                   (case walk vertex (Some vFirst) vFirst [] of
                      Inl err \<Rightarrow> Inl err
                    | Inr (vertex', vLast, we) \<Rightarrow> Inr (vertex', vLast, wires @ [we]))
                 else Inr (vertex, vFirst, wires)) of
             Inl err \<Rightarrow> Inl err
           | Inr (vertex', vLast, wires') \<Rightarrow>
               (case lookup vertex' vFirst of
                  Inl err \<Rightarrow> Inl err
                | Inr esF \<Rightarrow>
                    (let knots1 = (if length esF = 0 then filter (\<lambda>v. v \<noteq> vFirst) knots
                                   else knots)
                     in case lookup vertex' vLast of
                          Inl err \<Rightarrow> Inl err
                        | Inr esL \<Rightarrow>
                            (let knots2 = (if length esL = 0
                                           then filter (\<lambda>v. v \<noteq> vLast) knots1
                                           else knots1)
                             in Inr (vertex', knots2, wires'))))))"

lemma collect_step_decreases:
  assumes "collect_step vertex knots wires = Inr (vertex', knots', wires')" and "knots \<noteq> []"
  shows "total_edges vertex' < total_edges vertex \<or>
         (total_edges vertex' = total_edges vertex \<and> length knots' < length knots)"
proof -
  obtain vFirst rest where k: "knots = vFirst # rest" using assms(2) by (cases knots) auto
  from assms(1) obtain es where es: "lookup vertex vFirst = Inr es"
    by (auto simp: collect_step_def k Let_def split: sum.splits)
  have fl: "length (filter (\<lambda>v. v \<noteq> a) xs) \<le> length xs" for a :: nat and xs by simp
  show ?thesis
  proof (cases es)
    case Nil
    from assms(1) es Nil have v: "vertex' = vertex"
      by (auto simp: collect_step_def k Let_def split: sum.splits if_splits)
    from assms(1) es Nil have "knots' = filter (\<lambda>v. v \<noteq> vFirst) (filter (\<lambda>v. v \<noteq> vFirst) knots)"
      by (auto simp: collect_step_def k Let_def split: sum.splits if_splits)
    then have "length knots' < length knots"
      by (simp add: k less_Suc_eq_le)
    with v show ?thesis by simp
  next
    case (Cons edge more)
    from assms(1) es Cons obtain vLast we where
      "walk vertex (Some vFirst) vFirst [] = Inr (vertex', vLast, we)"
      by (auto simp: collect_step_def k Let_def split: sum.splits if_splits)
    from walk_total_edges_less [OF this es [unfolded Cons]] show ?thesis by simp
  qed
qed

function collect_loop ::
    "adjacency \<Rightarrow> nat list \<Rightarrow> edge list list \<Rightarrow> error + edge list list" where
  "collect_loop vertex knots wires =
     (if knots = [] then Inr wires
      else case collect_step vertex knots wires of
             Inl err \<Rightarrow> Inl err
           | Inr (vertex', knots', wires') \<Rightarrow> collect_loop vertex' knots' wires')"
  by pat_completeness auto
termination collect_loop
  by (relation "measures [\<lambda>(vertex, knots, wires). total_edges vertex,
                          \<lambda>(vertex, knots, wires). length knots]")
     (auto dest: collect_step_decreases)

text \<open>
  \<^verbatim>\<open>_collectVoronoiWires(vd)\<close>. The copy of the dictionary that the function leaves in
  the module variable \<^verbatim>\<open>Vertex\<close> is not read again and is left out.
\<close>

definition collectVoronoiWires :: "diagram \<Rightarrow> error + edge list list" where
  "collectVoronoiWires vd =
     (let edges = filter (\<lambda>e. Color e = PRIMARY) (Edges vd);
          vertex = build_vertex edges [];
          knots = initial_knots vertex
      in collect_loop vertex knots [])"

subsection \<open>PathVcarve: \<^verbatim>\<open>_sortVoronoiWires\<close>\<close>

text \<open>
  \<^verbatim>\<open>closestTo(start, point)\<close> goes through the dictionary in its order and keeps the
  first key at the least distance: a later key replaces it only when strictly nearer.
\<close>

fun closestTo_loop ::
    "vector \<Rightarrow> (nat \<times> vector) list \<Rightarrow> nat option \<Rightarrow> real option \<Rightarrow> nat option \<times> real option" where
  "closestTo_loop startp [] p l = (p, l)"
| "closestTo_loop startp ((i, pt) # point) p l =
     (if (case l of None \<Rightarrow> True | Some l' \<Rightarrow> l' > distanceToPoint startp pt)
      then closestTo_loop startp point (Some i) (Some (distanceToPoint startp pt))
      else closestTo_loop startp point p l)"

definition closestTo :: "vector \<Rightarrow> (nat \<times> vector) list \<Rightarrow> nat option \<times> real option" where
  "closestTo startp point = closestTo_loop startp point None None"

text \<open>
  The dictionaries \<^verbatim>\<open>begin\<close> and \<^verbatim>\<open>end\<close>: for the wire number \<open>i\<close>, the point of the
  first vertex of its first edge and of the second vertex of its last edge. \<^verbatim>\<open>w[0]\<close>
  raises \<^verbatim>\<open>IndexError\<close> on an empty wire.
\<close>

fun wire_ends ::
    "nat \<Rightarrow> edge list list \<Rightarrow> error + ((nat \<times> vector) list \<times> (nat \<times> vector) list)" where
  "wire_ends i [] = Inr ([], [])"
| "wire_ends i (w # ws) =
     (if w = [] then Inl IndexError
      else case wire_ends (Suc i) ws of
             Inl err \<Rightarrow> Inl err
           | Inr (begin', end') \<Rightarrow>
               Inr ((i, toPoint (fst (Vertices (hd w)))) # begin',
                    (i, toPoint (snd (Vertices (last w)))) # end'))"

text \<open>\<^verbatim>\<open>[e.Twin for e in reversed(w)]\<close>\<close>

definition reversed_wire :: "edge list \<Rightarrow> edge list" where
  "reversed_wire w = map Twin (rev w)"

text \<open>
  One round of \<^verbatim>\<open>while begin:\<close>, for a non-empty \<^verbatim>\<open>begin\<close>. Comparing with \<^verbatim>\<open>None\<close>
  raises \<^verbatim>\<open>TypeError\<close>.
\<close>

definition sort_step ::
    "edge list list \<Rightarrow> vector \<Rightarrow> (nat \<times> vector) list \<Rightarrow> (nat \<times> vector) list \<Rightarrow> edge list list \<Rightarrow>
     error + (vector \<times> (nat \<times> vector) list \<times> (nat \<times> vector) list \<times> edge list list)" where
  "sort_step wires startp begin' end' result =
     (case closestTo startp begin' of
        (Some bIdx, Some bLen) \<Rightarrow>
          (case closestTo startp end' of
             (Some eIdx, Some eLen) \<Rightarrow>
               (if bLen < eLen then
                  (if bIdx < length wires then
                     (case map_of end' bIdx of
                        None \<Rightarrow> Inl KeyError
                      | Some p \<Rightarrow>
                          Inr (p, AList.delete bIdx begin', AList.delete bIdx end',
                               result @ [wires ! bIdx]))
                   else Inl IndexError)
                else
                  (if eIdx < length wires then
                     (case map_of begin' eIdx of
                        None \<Rightarrow> Inl KeyError
                      | Some p \<Rightarrow>
                          Inr (p, AList.delete eIdx begin', AList.delete eIdx end',
                               result @ [reversed_wire (wires ! eIdx)]))
                   else Inl IndexError))
           | _ \<Rightarrow> Inl TypeError)
      | _ \<Rightarrow> Inl TypeError)"

lemma closestTo_loop_key:
  "closestTo_loop startp point p l = (Some k, r) \<Longrightarrow> k \<in> fst ` set point \<or> p = Some k"
  by (induction startp point p l rule: closestTo_loop.induct) (auto split: if_splits)

lemma closestTo_key: "closestTo startp point = (Some k, r) \<Longrightarrow> k \<in> fst ` set point"
  using closestTo_loop_key [of startp point None None k r] by (simp add: closestTo_def)

lemma length_delete_less:
  assumes "k \<in> fst ` set al"
  shows "length (AList.delete k al) < length al"
proof -
  from assms obtain v where "(k, v) \<in> set al" by auto
  then show ?thesis
    unfolding AList.delete_eq by (intro length_filter_less [of "(k, v)"]) auto
qed

lemma sort_step_decreases:
  assumes "sort_step wires startp begin' end' result = Inr (startp', begin'', end'', result')"
  shows "length begin'' < length begin'"
proof -
  from assms obtain bIdx bLen eIdx eLen where
    b: "closestTo startp begin' = (Some bIdx, Some bLen)" and
    e: "closestTo startp end' = (Some eIdx, Some eLen)"
    by (auto simp: sort_step_def split: prod.splits option.splits)
  show ?thesis
  proof (cases "bLen < eLen")
    case True
    with assms b e have "begin'' = AList.delete bIdx begin'"
      by (auto simp: sort_step_def split: option.splits if_splits)
    with closestTo_key [OF b] show ?thesis by (simp add: length_delete_less)
  next
    case False
    with assms b e obtain p where "map_of begin' eIdx = Some p"
      and "begin'' = AList.delete eIdx begin'"
      by (auto simp: sort_step_def split: option.splits if_splits)
    moreover from this have "eIdx \<in> fst ` set begin'"
      by (auto dest: map_of_SomeD intro: rev_image_eqI)
    ultimately show ?thesis by (simp add: length_delete_less)
  qed
qed

function sort_loop ::
    "edge list list \<Rightarrow> vector \<Rightarrow> (nat \<times> vector) list \<Rightarrow> (nat \<times> vector) list \<Rightarrow> edge list list \<Rightarrow>
     error + edge list list" where
  "sort_loop wires startp begin' end' result =
     (if begin' = [] then Inr result
      else case sort_step wires startp begin' end' result of
             Inl err \<Rightarrow> Inl err
           | Inr (startp', begin'', end'', result') \<Rightarrow>
               sort_loop wires startp' begin'' end'' result')"
  by pat_completeness auto
termination sort_loop
  by (relation "measure (\<lambda>(wires, startp, begin', end', result). length begin')")
     (auto dest: sort_step_decreases)

definition sortVoronoiWires :: "edge list list \<Rightarrow> vector \<Rightarrow> error + edge list list" where
  "sortVoronoiWires wires startp =
     (case wire_ends 0 wires of
        Inl err \<Rightarrow> Inl err
      | Inr (begin', end') \<Rightarrow> sort_loop wires startp begin' end' [])"

text \<open>
  Words for the properties of the wires. The first point of a wire is the point of the
  first vertex of its first edge, its last point the point of the second vertex of its
  last edge (the entries of \<^verbatim>\<open>begin\<close> and \<^verbatim>\<open>end\<close>). A wire and its reversal are the
  same undirected wire; an edge and its twin are the same undirected edge.
\<close>

definition wire_begin :: "edge list \<Rightarrow> vector" where
  "wire_begin w = toPoint (fst (Vertices (hd w)))"

definition wire_end :: "edge list \<Rightarrow> vector" where
  "wire_end w = toPoint (snd (Vertices (last w)))"


definition undirected :: "edge \<Rightarrow> edge set" where
  "undirected e = {e, Twin e}"

text \<open>
  The index of the vertex an edge starts from and of the vertex it goes to; the edges of
  a list at a vertex, in the order in which \<^verbatim>\<open>_collectVoronoiWires\<close> enters them into
  \<^verbatim>\<open>vertex\<close> (an edge from a vertex to itself is entered twice); the \<^verbatim>\<open>PRIMARY\<close>
  coloured edges of a diagram.
\<close>

definition edge_from :: "edge \<Rightarrow> nat" where
  "edge_from e = vertex.Index (fst (Vertices e))"

definition edge_to :: "edge \<Rightarrow> nat" where
  "edge_to e = vertex.Index (snd (Vertices e))"

definition adjacent :: "edge list \<Rightarrow> nat \<Rightarrow> edge list" where
  "adjacent es v =
     concat (map (\<lambda>e. (if v = edge_from e then [e] else []) @
                       (if v = edge_to e then [e] else [])) es)"

definition primary_edges :: "diagram \<Rightarrow> edge list" where
  "primary_edges vd = filter (\<lambda>e. Color e = PRIMARY) (Edges vd)"

text \<open>
  The dictionary \<^verbatim>\<open>vertex\<close> when the edges of the set \<open>C\<close> have been consumed: every
  vertex with an edge still has its key, and its list is the list it started with less
  the consumed edges.
\<close>

definition remaining :: "edge list \<Rightarrow> edge set \<Rightarrow> adjacency \<Rightarrow> bool" where
  "remaining es C vertex \<longleftrightarrow>
     (\<forall>v. map_of vertex v =
            (if adjacent es v = [] then None
             else Some (filter (\<lambda>e. e \<notin> C) (adjacent es v))))"

text \<open>The edges left at a vertex when the edges of \<open>C\<close> have been consumed.\<close>

abbreviation left_at :: "edge list \<Rightarrow> edge set \<Rightarrow> nat \<Rightarrow> edge list" where
  "left_at es C v \<equiv> filter (\<lambda>e. e \<notin> C) (adjacent es v)"

text \<open>
  A vertex is untouched or used up when it has all of its edges or none of them. Between
  two wires every vertex that is not a knot is so; while a wire is walked, its current
  vertex is the exception and, when it is not a knot, has one edge left.
\<close>

definition whole_or_empty :: "edge list \<Rightarrow> edge set \<Rightarrow> nat \<Rightarrow> bool" where
  "whole_or_empty es C v \<longleftrightarrow> left_at es C v = adjacent es v \<or> left_at es C v = []"

definition between_wires :: "edge list \<Rightarrow> nat set \<Rightarrow> edge set \<Rightarrow> bool" where
  "between_wires es K C \<longleftrightarrow> (\<forall>v. adjacent es v \<noteq> [] \<and> v \<notin> K \<longrightarrow> whole_or_empty es C v)"

definition walking :: "edge list \<Rightarrow> nat set \<Rightarrow> edge set \<Rightarrow> nat \<Rightarrow> bool" where
  "walking es K C cur \<longleftrightarrow>
     (\<forall>v. adjacent es v \<noteq> [] \<and> v \<notin> K \<and> v \<noteq> cur \<longrightarrow> whole_or_empty es C v) \<and>
     (cur \<notin> K \<longrightarrow> length (left_at es C cur) = 1)"

text \<open>A chain of edges from the vertex \<open>u\<close> to the vertex \<open>v\<close>.\<close>

fun chain :: "nat \<Rightarrow> edge list \<Rightarrow> nat \<Rightarrow> bool" where
  "chain u [] v \<longleftrightarrow> u = v"
| "chain u (e # es) v \<longleftrightarrow> edge_from e = u \<and> chain (edge_to e) es v"

text \<open>
  The knots of a diagram, as \<^verbatim>\<open>_collectVoronoiWires\<close> computes them before its loop.
\<close>

definition diagram_knots :: "diagram \<Rightarrow> nat list" where
  "diagram_knots vd = initial_knots (build_vertex (primary_edges vd) [])"

text \<open>
  The state of the outer loop when the edges \<open>src\<close> have been consumed, in this order:
  the dictionary is what these edges leave, every knot dropped from the list has no edge
  left, no wire is under way, the wires collected so far are made of these edges, each
  taken as it is or as its twin, and every wire is a non-empty chain from a knot to a
  knot.
\<close>

definition collect_inv ::
    "edge list \<Rightarrow> nat set \<Rightarrow> adjacency \<Rightarrow> nat list \<Rightarrow> edge list list \<Rightarrow> edge list \<Rightarrow> bool" where
  "collect_inv es K vertex knots wires src \<longleftrightarrow>
     remaining es (set src) vertex \<and>
     set knots \<subseteq> K \<and>
     (\<forall>k \<in> K. k \<notin> set knots \<longrightarrow> left_at es (set src) k = []) \<and>
     between_wires es K (set src) \<and>
     distinct src \<and> set src \<subseteq> set es \<and>
     list_all2 (\<lambda>x e. x = e \<or> x = Twin e) (concat wires) src \<and>
     (\<forall>w \<in> set wires. w \<noteq> [] \<and> edge_from (hd w) \<in> K \<and>
        (\<exists>v \<in> K. chain (edge_from (hd w)) w v))"




subsection \<open>PathVcarve: depth-resolved path edges\<close>

text \<open>
  Python's \<^verbatim>\<open>round(x, n)\<close> rounds to the nearest multiple of \<open>10^-n\<close>, and a value
  half way between two of them to the even one.
\<close>

definition round_half_even :: "real \<Rightarrow> int" where
  "round_half_even r =
     (let f = \<lfloor>r\<rfloor>; d = r - of_int f
      in if d < 1 / 2 then f
         else if d > 1 / 2 then f + 1
         else if even f then f else f + 1)"

definition py_round :: "real \<Rightarrow> nat \<Rightarrow> real" where
  "py_round r n = of_int (round_half_even (r * 10 ^ n)) / 10 ^ n"

text \<open>\<^verbatim>\<open>_calculate_depth(MIC, width_to_depth_calculator)\<close>\<close>

definition calculate_depth :: "real \<Rightarrow> calculator \<Rightarrow> error + real" where
  "calculate_depth MIC width_to_depth_calculator =
     (case WidthToDepth width_to_depth_calculator MIC of
        Inl err \<Rightarrow> Inl err
      | Inr d \<Rightarrow> Inr (py_round d 4))"

text \<open>
  A path edge (a \<^verbatim>\<open>Part\<close> edge) is kept as its two end points,
  \<^verbatim>\<open>valueAt(FirstParameter)\<close> and \<^verbatim>\<open>valueAt(LastParameter)\<close>.
\<close>

type_synonym part_edge = "vector \<times> vector"

text \<open>
  Modelled from the spec: \<^verbatim>\<open>edge.toShape(zBegin, zEnd)\<close> belongs to the Voronoi
  binding, which is not among the modelled files. The spec has it build "a 3D segment
  whose (x,y) follows the diagram edge's planar geometry and whose z interpolates
  between the two resolved depths": the end points are the two vertices of the edge at
  the two depths.
\<close>

definition toShape :: "edge \<Rightarrow> real \<Rightarrow> real \<Rightarrow> part_edge" where
  "toShape e zBegin zEnd =
     ((X (fst (Vertices e)), Y (fst (Vertices e)), zBegin),
      (X (snd (Vertices e)), Y (snd (Vertices e)), zEnd))"

text \<open>\<^verbatim>\<open>_getPartEdge(edge, width_to_depth_calculator)\<close>\<close>

definition getPartEdge :: "edge \<Rightarrow> calculator \<Rightarrow> error + part_edge" where
  "getPartEdge e width_to_depth_calculator =
     (let dist = getDistances e in
      case calculate_depth (fst dist) width_to_depth_calculator of
        Inl err \<Rightarrow> Inl err
      | Inr zBegin \<Rightarrow>
          (case calculate_depth (snd dist) width_to_depth_calculator of
             Inl err \<Rightarrow> Inl err
           | Inr zEnd \<Rightarrow> Inr (toShape e zBegin zEnd)))"

text \<open>\<^verbatim>\<open>median(v1, v2)\<close> of \<^verbatim>\<open>simplify_edges\<close>\<close>

definition median :: "vector \<Rightarrow> vector \<Rightarrow> vector" where
  "median v1 v2 = (let vd = Vector_scale (Vector_sub v2 v1) 0.5 0.5 0.5 in Vector_add v1 vd)"

text \<open>
  \<^verbatim>\<open>simplified_points.insert(-1, m)\<close> after \<^verbatim>\<open>m = median(simplified_points[-2],
  simplified_points[-1])\<close>; the index \<open>-2\<close> raises \<^verbatim>\<open>IndexError\<close> on a list of one
  point.
\<close>

definition insert_median :: "vector list \<Rightarrow> error + vector list" where
  "insert_median simplified_points =
     (if length simplified_points < 2 then Inl IndexError
      else let m = median (simplified_points ! (length simplified_points - 2))
                          (simplified_points ! (length simplified_points - 1))
           in Inr (butlast simplified_points @ [m, last simplified_points]))"

text \<open>
  \<^verbatim>\<open>for i in range(0, len(simplified_points) - 1, 2)\<close>: a line segment from the point
  \<open>i\<close> to the point \<open>i + 1\<close>.
\<close>

definition line_segments :: "vector list \<Rightarrow> part_edge list" where
  "line_segments simplified_points =
     map (\<lambda>i. (simplified_points ! i, simplified_points ! (i + 1)))
         (filter even [0 ..< length simplified_points - 1])"

text \<open>
  \<^verbatim>\<open>simplify_edges(edges)\<close>. \<^verbatim>\<open>PathUtils.simplify3dLine\<close> is not among the modelled
  files; it is the parameter \<open>simplify3dLine\<close>.
\<close>

definition simplify_edges ::
    "(vector list \<Rightarrow> vector list) \<Rightarrow> part_edge list \<Rightarrow> error + part_edge list" where
  "simplify_edges simplify3dLine edges =
     (case edges of
        [] \<Rightarrow> Inl IndexError
      | e0 # _ \<Rightarrow>
          (let points = fst e0 # map snd edges;
               simplified_points = simplify3dLine points
           in case (if length simplified_points mod 2 \<noteq> 0
                    then insert_median simplified_points
                    else Inr simplified_points) of
                Inl err \<Rightarrow> Inl err
              | Inr simplified_points' \<Rightarrow> Inr (line_segments simplified_points')))"

text \<open>\<^verbatim>\<open>_getPartEdges(obj, vWire, width_to_depth_calculator)\<close>\<close>

fun getPartEdge_list :: "edge list \<Rightarrow> calculator \<Rightarrow> error + part_edge list" where
  "getPartEdge_list [] width_to_depth_calculator = Inr []"
| "getPartEdge_list (e # vWire) width_to_depth_calculator =
     (case getPartEdge e width_to_depth_calculator of
        Inl err \<Rightarrow> Inl err
      | Inr pe \<Rightarrow>
          (case getPartEdge_list vWire width_to_depth_calculator of
             Inl err \<Rightarrow> Inl err
           | Inr pes \<Rightarrow> Inr (pe # pes)))"

definition getPartEdges ::
    "(vector list \<Rightarrow> vector list) \<Rightarrow> edge list \<Rightarrow> calculator \<Rightarrow> error + part_edge list" where
  "getPartEdges simplify3dLine vWire width_to_depth_calculator =
     (case getPartEdge_list vWire width_to_depth_calculator of
        Inl err \<Rightarrow> Inl err
      | Inr edges \<Rightarrow> simplify_edges simplify3dLine edges)"

subsection \<open>PathVcarve: \<^verbatim>\<open>buildPathMedial\<close> and \<^verbatim>\<open>opExecute\<close>\<close>

text \<open>
  Motion commands. \<^verbatim>\<open>PathGeom.cmdsForEdge\<close> is not among the modelled files and is
  the parameter \<open>cmdsForEdge\<close>; \<open>Other\<close> stands for the commands it makes.
\<close>

datatype command =
    Comment string
  | G0_Z real
  | G0_XYZ real real real
  | G1_XYZF real real real real
  | Other string "real list"

record obj =
  SafeHeight :: real
  HorizFeed :: real
  VertFeed :: real
  FinalDepth :: real

text \<open>\<^verbatim>\<open>cutWire(edges)\<close>; \<^verbatim>\<open>edges[0]\<close> raises \<^verbatim>\<open>IndexError\<close> on an empty list.\<close>

definition cutWire ::
    "(part_edge \<Rightarrow> real \<Rightarrow> real \<Rightarrow> command list) \<Rightarrow> obj \<Rightarrow> part_edge list \<Rightarrow> error + command list" where
  "cutWire cmdsForEdge ob edges =
     (case edges of
        [] \<Rightarrow> Inl IndexError
      | e # _ \<Rightarrow>
          (case fst e of (px, py, pz) \<Rightarrow>
             (let hSpeed = HorizFeed ob;
                  vSpeed = VertFeed ob;
                  path = [G0_Z (SafeHeight ob), G0_XYZ px py (SafeHeight ob),
                          G1_XYZF px py pz vSpeed]
              in Inr (path @ concat (map (\<lambda>e. cmdsForEdge e hSpeed vSpeed) edges)))))"

definition sorting :: string where
  "sorting = ''global''"

text \<open>
  The loop over the faces of \<^verbatim>\<open>buildPathMedial\<close>. Building and colouring the diagram
  of a face (\<^verbatim>\<open>Path.Voronoi()\<close>, \<^verbatim>\<open>insert_many_wires\<close>, \<^verbatim>\<open>vd.construct()\<close> and the
  colour passes) happens in the Voronoi library; it is the parameter \<open>voronoi\<close>,
  which gives the coloured diagram or raises. The debugging list \<^verbatim>\<open>VD\<close> is left out.
\<close>

fun collect_faces ::
    "('f \<Rightarrow> error + diagram) \<Rightarrow> 'f list \<Rightarrow> edge list list \<Rightarrow> error + edge list list" where
  "collect_faces voronoi [] voronoiWires = Inr voronoiWires"
| "collect_faces voronoi (f # faces) voronoiWires =
     (case voronoi f of
        Inl err \<Rightarrow> Inl err
      | Inr vd \<Rightarrow>
          (case collectVoronoiWires vd of
             Inl err \<Rightarrow> Inl err
           | Inr wires \<Rightarrow>
               (case (if sorting \<noteq> ''global'' then sortVoronoiWires wires (0, 0, 0)
                      else Inr wires) of
                  Inl err \<Rightarrow> Inl err
                | Inr wires' \<Rightarrow> collect_faces voronoi faces (voronoiWires @ wires'))))"

text \<open>The loop \<^verbatim>\<open>for w in voronoiWires\<close> that fills \<^verbatim>\<open>pathlist\<close>.\<close>

fun build_paths ::
    "(vector list \<Rightarrow> vector list) \<Rightarrow> (part_edge \<Rightarrow> real \<Rightarrow> real \<Rightarrow> command list) \<Rightarrow> obj \<Rightarrow>
     calculator \<Rightarrow> edge list list \<Rightarrow> command list \<Rightarrow> error + command list" where
  "build_paths simplify3dLine cmdsForEdge ob calc [] pathlist = Inr pathlist"
| "build_paths simplify3dLine cmdsForEdge ob calc (w # voronoiWires) pathlist =
     (case getPartEdges simplify3dLine w calc of
        Inl err \<Rightarrow> Inl err
      | Inr pWire \<Rightarrow>
          (if pWire \<noteq> [] then
             (case cutWire cmdsForEdge ob pWire of
                Inl err \<Rightarrow> Inl err
              | Inr cmds \<Rightarrow>
                  build_paths simplify3dLine cmdsForEdge ob calc voronoiWires (pathlist @ cmds))
           else build_paths simplify3dLine cmdsForEdge ob calc voronoiWires pathlist))"

text \<open>
  The operation object: the command list it has committed and the lines it has written
  to the console and the log.
\<close>

record vcarve =
  commandlist :: "command list"
  console :: "string list"

text \<open>
  \<^verbatim>\<open>buildPathMedial\<close> returns the object and the exception it raised, if any.
\<close>

definition buildPathMedial ::
    "('f \<Rightarrow> error + diagram) \<Rightarrow> (vector list \<Rightarrow> vector list) \<Rightarrow>
     (part_edge \<Rightarrow> real \<Rightarrow> real \<Rightarrow> command list) \<Rightarrow>
     vcarve \<Rightarrow> obj \<Rightarrow> calculator \<Rightarrow> 'f list \<Rightarrow> vcarve \<times> error option" where
  "buildPathMedial voronoi simplify3dLine cmdsForEdge self ob calc faces =
     (case collect_faces voronoi faces [] of
        Inl err \<Rightarrow> (self, Some err)
      | Inr voronoiWires \<Rightarrow>
          (case (if sorting = ''global'' then sortVoronoiWires voronoiWires (0, 0, 0)
                 else Inr voronoiWires) of
             Inl err \<Rightarrow> (self, Some err)
           | Inr voronoiWires' \<Rightarrow>
               (case build_paths simplify3dLine cmdsForEdge ob calc voronoiWires'
                       [Comment ''(starting)''] of
                  Inl err \<Rightarrow> (self, Some err)
                | Inr pathlist \<Rightarrow> (self\<lparr>commandlist := pathlist\<rparr>, None))))"

text \<open>
  \<^verbatim>\<open>opExecute\<close>. The calculator is made before the \<^verbatim>\<open>try\<close>, so an exception of the
  factory leaves \<^verbatim>\<open>opExecute\<close> (\<open>Inl\<close>); one raised inside the \<^verbatim>\<open>try\<close> is caught
  and logged. \<open>zMax\<close> is \<^verbatim>\<open>self.model[0].Shape.BoundBox.ZMax\<close> and \<open>faces\<close> the faces
  gathered from the base objects.
\<close>

definition opExecute ::
    "('f \<Rightarrow> error + diagram) \<Rightarrow> (vector list \<Rightarrow> vector list) \<Rightarrow>
     (part_edge \<Rightarrow> real \<Rightarrow> real \<Rightarrow> command list) \<Rightarrow>
     vcarve \<Rightarrow> obj \<Rightarrow> tool \<Rightarrow> string \<Rightarrow> real \<Rightarrow> 'f list \<Rightarrow> error + vcarve" where
  "opExecute voronoi simplify3dLine cmdsForEdge self ob tool bitShape zMax faces =
     (case WidthToDepthCalculator tool bitShape zMax (FinalDepth ob) of
        Inl err \<Rightarrow> Inl err
      | Inr (printed, width_to_depth_calculator) \<Rightarrow>
          (let self1 = self\<lparr>console := console self @ printed\<rparr> in
           if \<not> SupportsVcarve width_to_depth_calculator then
             Inr (self1\<lparr>console := console self1 @
                    [''This Engraver doesn't support Vcarve.'']\<rparr>)
           else if faces \<noteq> [] then
             (case buildPathMedial voronoi simplify3dLine cmdsForEdge self1 ob
                     width_to_depth_calculator faces of
                (self2, None) \<Rightarrow> Inr self2
              | (self2, Some err) \<Rightarrow>
                  Inr (self2\<lparr>console := console self2 @
                         [''Error processing Base object. Engraving operation will produce no output.'']\<rparr>))
           else
             Inr (self1\<lparr>console := console self1 @
                    [''The Job Base Object has no engraveable element. Engraving operation will produce no output.'']\<rparr>)))"

section \<open>Properties of the calculators\<close>

lemma radians_half_angle: "radians (A / 2) = A * pi / 360"
  by (simp add: radians_def)

lemma tan_half_angle_pos:
  assumes "0 < A" and "A < 180"
  shows "0 < tan (radians (A / 2))"
proof -
  have "0 < A * pi / 360" using assms by simp
  moreover have "A * pi / 360 < pi / 2" using assms by (simp add: field_simps)
  ultimately show ?thesis unfolding radians_half_angle by (rule tan_gt_zero)
qed

lemma Conical_init_built:
  assumes "0 < A" and "A < 180"
  shows "Conical_init D Td A =
           Inr (Conical (D / 2) (Td / 2) (1 / tan (radians (A / 2)))
                  (Td / 2 * (1 / tan (radians (A / 2))))
                  (0 + Td / 2 * (1 / tan (radians (A / 2))))
                  (max (0 - D / 2 * (1 / tan (radians (A / 2))) + Td / 2 * (1 / tan (radians (A / 2)))) 0))"
  using tan_half_angle_pos [OF assms] by (simp add: Conical_init_def Let_def)

lemma Conical_init_Inr:
  assumes "Conical_init D Td A = Inr c"
  shows "\<exists>s0 e0. c = Conical (D / 2) (Td / 2) (1 / tan (radians (A / 2)))
                        (Td / 2 * (1 / tan (radians (A / 2)))) s0 e0"
  using assms by (auto simp: Conical_init_def Let_def split: if_splits)

lemma tan_radians_45: "tan (radians 45) = 1"
proof -
  have "radians 45 = pi / 4" by (simp add: radians_def)
  then show ?thesis by (simp only: tan_45)
qed

text \<open>
  Claim C2. A conical calculator is built for every included angle \<open>A\<close> between 0 and
  180 degrees. Whenever it is built from the diameter \<open>D\<close>, the tip diameter \<open>Td\<close> and
  the angle \<open>A\<close>, then after \<^verbatim>\<open>SetLimits(zStart, zFinal)\<close> its scale is
  \<open>1 / tan (radians (A / 2))\<close>, its start is \<open>zStart + (Td / 2) * scale\<close>, its stop is
  \<open>max (zStart - (D / 2) * scale + (Td / 2) * scale) zFinal\<close>, and the depth of every width
  \<open>w\<close> is \<open>max (start - w * scale) stop\<close>. For \<open>D = 10\<close>, \<open>Td = 0\<close>, \<open>A = 90\<close>,
  \<open>zStart = 0\<close> and \<open>zFinal = -10\<close> the factory gives start 0, stop -5 and scale 1.
\<close>
theorem conical_limits:
  "(0 < A \<and> A < 180 \<longrightarrow> (\<exists>c. Conical_init D Td A = Inr c)) \<and>
   (\<forall>c. Conical_init D Td A = Inr c \<longrightarrow>
      (let c' = SetLimits c zStart zFinal in
         scale c' = 1 / tan (radians (A / 2)) \<and>
         start c' = zStart + (Td / 2) * scale c' \<and>
         stop c' = max (zStart - (D / 2) * scale c' + (Td / 2) * scale c') zFinal \<and>
         (\<forall>w. WidthToDepth c' w = Inr (max (start c' - w * scale c') (stop c'))))) \<and>
   (\<exists>c. WidthToDepthCalculator \<lparr>Diameter = 10, TipDiameter = 0, CuttingEdgeAngle = 90\<rparr>
           ''v-bit.fcstd'' 0 (- 10) = Inr ([], c) \<and>
        start c = 0 \<and> stop c = - 5 \<and> scale c = 1)"
proof (intro conjI allI impI)
  assume "0 < A \<and> A < 180"
  then show "\<exists>c. Conical_init D Td A = Inr c"
    using Conical_init_built [of A D Td] by blast
next
  fix c assume "Conical_init D Td A = Inr c"
  from Conical_init_Inr [OF this] obtain s0 e0 where
    c: "c = Conical (D / 2) (Td / 2) (1 / tan (radians (A / 2)))
              (Td / 2 * (1 / tan (radians (A / 2)))) s0 e0" by blast
  show "let c' = SetLimits c zStart zFinal in
         scale c' = 1 / tan (radians (A / 2)) \<and>
         start c' = zStart + (Td / 2) * scale c' \<and>
         stop c' = max (zStart - (D / 2) * scale c' + (Td / 2) * scale c') zFinal \<and>
         (\<forall>w. WidthToDepth c' w = Inr (max (start c' - w * scale c') (stop c')))"
    unfolding c by (simp add: Let_def)
next
  have "Conical_init 10 0 90 = Inr (Conical 5 0 1 0 0 0)"
    using Conical_init_built [of 90 10 0] by (simp add: tan_radians_45)
  then show "\<exists>c. WidthToDepthCalculator \<lparr>Diameter = 10, TipDiameter = 0, CuttingEdgeAngle = 90\<rparr>
           ''v-bit.fcstd'' 0 (- 10) = Inr ([], c) \<and>
        start c = 0 \<and> stop c = - 5 \<and> scale c = 1"
    by (simp add: WidthToDepthCalculator_def endswith_def)
qed

theorem conical_limits_witness:
  "Conical_init 10 2 90 = Inr (Conical 5 1 1 1 1 0) \<and>
   SetLimits (Conical 5 1 1 1 1 0) 0 (- 10) = Conical 5 1 1 1 1 (- 4) \<and>
   WidthToDepth (Conical 5 1 1 1 1 (- 4)) 3 = Inr (- 2)"
proof -
  have b: "Conical_init 10 2 90 = Inr (Conical 5 1 1 1 1 0)"
    using Conical_init_built [of 90 10 2] by (simp add: tan_radians_45)
  from conical_limits [of 90 10 2 0 "- 10"] b
  have "WidthToDepth (SetLimits (Conical 5 1 1 1 1 0) 0 (- 10)) 3 =
          Inr (max (start (SetLimits (Conical 5 1 1 1 1 0) 0 (- 10))
                    - 3 * scale (SetLimits (Conical 5 1 1 1 1 0) 0 (- 10)))
                   (stop (SetLimits (Conical 5 1 1 1 1 0) 0 (- 10))))"
    by (simp add: Let_def)
  with b show ?thesis by simp
qed

text \<open>
  Claim C6. For a v-bit with a cutting edge angle of 180 degrees the factory does not
  return the unsupported calculator: the name \<^verbatim>\<open>translate\<close> is not bound in
  \<^verbatim>\<open>PathWidthToDepth.py\<close>, so building the message raises \<^verbatim>\<open>NameError\<close> before
  anything is printed, and since \<^verbatim>\<open>opExecute\<close> calls the factory outside its
  \<^verbatim>\<open>try\<close>, the exception leaves \<^verbatim>\<open>opExecute\<close> as well.
\<close>
theorem factory_angle_180_raises:
  "WidthToDepthCalculator \<lparr>Diameter = 10, TipDiameter = 0, CuttingEdgeAngle = 180\<rparr>
      ''v-bit.fcstd'' 0 (- 10) = Inl NameError
   \<and> opExecute voronoi simplify3dLine cmdsForEdge self
        \<lparr>SafeHeight = 5, HorizFeed = 1, VertFeed = 1, FinalDepth = - 10\<rparr>
        \<lparr>Diameter = 10, TipDiameter = 0, CuttingEdgeAngle = 180\<rparr> ''v-bit.fcstd'' 0 faces
      = Inl NameError"
  by (simp add: WidthToDepthCalculator_def opExecute_def endswith_def resolve_name_def
      module_names_def)

lemma Spherical_limits:
  "SetLimits (Spherical_init D) zStart zFinal =
     Spherical (D / 2) ((D / 2) ^ 2) zStart (max (zStart - D / 2) zFinal)"
  by (simp add: Spherical_init_def Let_def)

lemma radicand_nonneg:
  fixes w r :: real
  assumes "0 \<le> w" and "w < r"
  shows "0 \<le> r ^ 2 - w ^ 2"
proof -
  have "w ^ 2 \<le> r ^ 2" using assms by (intro power_mono) auto
  then show ?thesis by simp
qed

text \<open>
  Claim C5. For a spherical calculator of diameter \<open>D\<close>, with \<open>rMax = D / 2\<close> and the
  limits set by \<^verbatim>\<open>SetLimits(zStart, zFinal)\<close>, and a width \<open>w \<ge> 0\<close>: when \<open>w < rMax\<close> the
  radicand \<open>rMax\<^sup>2 - w\<^sup>2\<close> is not negative, so \<^verbatim>\<open>math.sqrt\<close> does not raise and clamping
  the radicand at 0 changes nothing, and the depth is
  \<open>max (start - (rMax - sqrt (rMax\<^sup>2 - w\<^sup>2))) stop\<close>; otherwise the depth is
  \<open>max (start - rMax) stop\<close>. For \<open>D = 10\<close>, \<open>zStart = 0\<close> and \<open>zFinal = -10\<close> the depth of
  the width 5 is -5 and that of 2.5 is \<open>-(5 - sqrt (25 - 6.25))\<close>.
\<close>
theorem spherical_depth:
  assumes "0 \<le> w"
  shows "(let c = SetLimits (Spherical_init D) zStart zFinal in
            rMax c = D / 2 \<and>
            (w < rMax c \<longrightarrow>
               0 \<le> (rMax c) ^ 2 - w ^ 2 \<and>
               math_sqrt ((rMax c) ^ 2 - w ^ 2) = Inr (sqrt (max 0 ((rMax c) ^ 2 - w ^ 2))) \<and>
               WidthToDepth c w =
                 Inr (max (start c - (rMax c - sqrt (max 0 ((rMax c) ^ 2 - w ^ 2)))) (stop c))) \<and>
            (\<not> w < rMax c \<longrightarrow> WidthToDepth c w = Inr (max (start c - rMax c) (stop c)))) \<and>
         (\<exists>c. WidthToDepthCalculator \<lparr>Diameter = 10, TipDiameter = 0, CuttingEdgeAngle = 0\<rparr>
                 ''ballend.fcstd'' 0 (- 10) = Inr ([], c) \<and>
              WidthToDepth c 5 = Inr (- 5) \<and>
              WidthToDepth c 2.5 = Inr (- (5 - sqrt (25 - 6.25))))"
proof (intro conjI)
  show "let c = SetLimits (Spherical_init D) zStart zFinal in
            rMax c = D / 2 \<and>
            (w < rMax c \<longrightarrow>
               0 \<le> (rMax c) ^ 2 - w ^ 2 \<and>
               math_sqrt ((rMax c) ^ 2 - w ^ 2) = Inr (sqrt (max 0 ((rMax c) ^ 2 - w ^ 2))) \<and>
               WidthToDepth c w =
                 Inr (max (start c - (rMax c - sqrt (max 0 ((rMax c) ^ 2 - w ^ 2)))) (stop c))) \<and>
            (\<not> w < rMax c \<longrightarrow> WidthToDepth c w = Inr (max (start c - rMax c) (stop c)))"
  proof (cases "w < D / 2")
    case True
    from radicand_nonneg [OF assms True] have nn: "0 \<le> (D / 2) ^ 2 - w ^ 2" .
    then have "\<not> (D / 2) ^ 2 - w ^ 2 < 0" by simp
    with True nn show ?thesis
      by (simp add: Spherical_limits Let_def math_sqrt_def max_def)
  next
    case False
    then show ?thesis by (simp add: Spherical_limits Let_def)
  qed
next
  have s: "0 \<le> sqrt (75 / 4 :: real)" by simp
  have "(25::real) - 25 / 4 = 75 / 4" by simp
  have "WidthToDepth (Spherical 5 25 0 (- 5)) (5 / 2) = Inr (- (5 - sqrt (75 / 4)))"
    using s by (simp add: math_sqrt_def power2_eq_square max_def)
  then show "\<exists>c. WidthToDepthCalculator \<lparr>Diameter = 10, TipDiameter = 0, CuttingEdgeAngle = 0\<rparr>
                 ''ballend.fcstd'' 0 (- 10) = Inr ([], c) \<and>
              WidthToDepth c 5 = Inr (- 5) \<and>
              WidthToDepth c 2.5 = Inr (- (5 - sqrt (25 - 6.25)))"
    by (simp add: WidthToDepthCalculator_def endswith_def Spherical_limits)
qed

theorem spherical_depth_witness:
  "(0::real) \<le> 3 \<and> WidthToDepth (SetLimits (Spherical_init 10) 0 (- 10)) 3 = Inr (- 1)"
proof -
  have "sqrt (16::real) = 4" using real_sqrt_abs [of 4] by simp
  with spherical_depth [of 3 10 0 "- 10"] show ?thesis
    by (simp add: Let_def Spherical_limits power2_eq_square)
qed

text \<open>The depth of cut of a ball of radius \<open>r\<close> at the width \<open>w\<close>.\<close>

lemma spherical_WidthToDepth:
  assumes "0 \<le> w"
  shows "WidthToDepth (Spherical r (r ^ 2) st sp) w =
           Inr (max (st - (if w < r then r - sqrt (r ^ 2 - w ^ 2) else r)) sp)"
proof (cases "w < r")
  case True
  from radicand_nonneg [OF assms True] have "\<not> r ^ 2 - w ^ 2 < 0" by simp
  with True show ?thesis by (simp add: math_sqrt_def)
next
  case False
  then show ?thesis by simp
qed

lemma ball_depth_mono:
  fixes r :: real
  assumes "0 \<le> w1" and "w1 \<le> w2"
  shows "(if w1 < r then r - sqrt (r ^ 2 - w1 ^ 2) else r)
         \<le> (if w2 < r then r - sqrt (r ^ 2 - w2 ^ 2) else r)"
proof (cases "w2 < r")
  case True
  then have w1: "w1 < r" using assms by simp
  have "w1 ^ 2 \<le> w2 ^ 2" using assms by (intro power_mono) auto
  then have "sqrt (r ^ 2 - w2 ^ 2) \<le> sqrt (r ^ 2 - w1 ^ 2)" by simp
  with True w1 show ?thesis by simp
next
  case False
  show ?thesis
  proof (cases "w1 < r")
    case True
    from radicand_nonneg [OF assms(1) True] have "0 \<le> sqrt (r ^ 2 - w1 ^ 2)" by simp
    with True False show ?thesis by simp
  next
    case F: False
    with False show ?thesis by simp
  qed
qed

lemma ball_depth_nonneg:
  fixes r :: real
  assumes "0 \<le> w" and "0 \<le> r"
  shows "0 \<le> (if w < r then r - sqrt (r ^ 2 - w ^ 2) else r)"
proof (cases "w < r")
  case True
  have "r ^ 2 - w ^ 2 \<le> r ^ 2" by simp
  then have "sqrt (r ^ 2 - w ^ 2) \<le> sqrt (r ^ 2)" by (simp only: real_sqrt_le_iff)
  also have "sqrt (r ^ 2) = r" using assms(2) by simp
  finally show ?thesis using True by simp
next
  case False
  with assms show ?thesis by simp
qed

text \<open>
  Claim C4, as stated, fails for a conical tool with a tip diameter: for \<open>D = 10\<close>,
  \<open>Td = 2\<close>, \<open>A = 90\<close>, \<open>zStart = 0\<close> and \<open>zFinal = -10\<close> the depth of the width 0 is
  1 and that of the width 1 is 0, so the magnitude falls as the width grows, and the
  depth 1 lies above \<open>zStart = 0\<close>.
\<close>
theorem depth_magnitude_counterexample:
  "WidthToDepthCalculator \<lparr>Diameter = 10, TipDiameter = 2, CuttingEdgeAngle = 90\<rparr>
      ''v-bit.fcstd'' 0 (- 10) = Inr ([], Conical 5 1 1 1 1 (- 4)) \<and>
   WidthToDepth (Conical 5 1 1 1 1 (- 4)) 0 = Inr 1 \<and>
   WidthToDepth (Conical 5 1 1 1 1 (- 4)) 1 = Inr 0 \<and>
   \<not> \<bar>1 :: real\<bar> \<le> \<bar>0\<bar> \<and> \<not> (1 :: real) \<le> 0"
proof -
  have "Conical_init 10 2 90 = Inr (Conical 5 1 1 1 1 0)"
    using Conical_init_built [of 90 10 2] by (simp add: tan_radians_45)
  then show ?thesis by (simp add: WidthToDepthCalculator_def endswith_def)
qed

text \<open>
  Claim C4, amended. For widths \<open>0 \<le> w1 \<le> w2\<close>, a conical calculator with
  \<open>0 < A < 180\<close> and a spherical one with \<open>D \<ge> 0\<close>, after
  \<^verbatim>\<open>SetLimits(zStart, zFinal)\<close>: both depths are returned, the depth of the larger
  width is not above that of the smaller, every depth lies between \<open>stop\<close> (which is at
  least \<open>zFinal\<close>) and the larger of \<open>start\<close> and \<open>stop\<close>, where \<open>start\<close> is
  \<open>zStart + zOff\<close> for the cone and \<open>zStart\<close> for the ball; when \<open>start\<close> and \<open>stop\<close>
  are not positive the magnitude of the depth does not fall as the width grows. The
  unsupported calculator returns 0 for every width.
\<close>
theorem depth_monotone_clamped:
  assumes "0 \<le> w1" and "w1 \<le> w2"
  shows "(\<forall>c. 0 < A \<and> A < 180 \<and> Conical_init D Td A = Inr c \<longrightarrow>
            (let c' = SetLimits c zStart zFinal in
             \<exists>d1 d2. WidthToDepth c' w1 = Inr d1 \<and> WidthToDepth c' w2 = Inr d2 \<and>
                d2 \<le> d1 \<and> zFinal \<le> stop c' \<and> stop c' \<le> d2 \<and>
                d1 \<le> max (start c') (stop c') \<and> start c' = zStart + zOff c' \<and>
                (start c' \<le> 0 \<and> stop c' \<le> 0 \<longrightarrow> \<bar>d1\<bar> \<le> \<bar>d2\<bar>))) \<and>
         (0 \<le> Ds \<longrightarrow>
            (let c' = SetLimits (Spherical_init Ds) zStart zFinal in
             \<exists>d1 d2. WidthToDepth c' w1 = Inr d1 \<and> WidthToDepth c' w2 = Inr d2 \<and>
                d2 \<le> d1 \<and> zFinal \<le> stop c' \<and> stop c' \<le> d2 \<and>
                d1 \<le> max (start c') (stop c') \<and> start c' = zStart \<and>
                (start c' \<le> 0 \<and> stop c' \<le> 0 \<longrightarrow> \<bar>d1\<bar> \<le> \<bar>d2\<bar>))) \<and>
         WidthToDepth (SetLimits Unsupported zStart zFinal) w1 = Inr 0 \<and>
         WidthToDepth (SetLimits Unsupported zStart zFinal) w2 = Inr 0"
proof (intro conjI allI impI)
  fix c
  assume a: "0 < A \<and> A < 180 \<and> Conical_init D Td A = Inr c"
  define s where "s = 1 / tan (radians (A / 2))"
  have s: "0 < s" using tan_half_angle_pos [of A] a by (simp add: s_def)
  have c: "c = Conical (D / 2) (Td / 2) s (Td / 2 * s) (0 + Td / 2 * s)
                 (max (0 - D / 2 * s + Td / 2 * s) 0)"
    using Conical_init_built [of A D Td] a by (simp add: s_def)
  have m: "w1 * s \<le> w2 * s" using assms s by simp
  have n: "0 \<le> w1 * s" using assms s by simp
  show "let c' = SetLimits c zStart zFinal in
             \<exists>d1 d2. WidthToDepth c' w1 = Inr d1 \<and> WidthToDepth c' w2 = Inr d2 \<and>
                d2 \<le> d1 \<and> zFinal \<le> stop c' \<and> stop c' \<le> d2 \<and>
                d1 \<le> max (start c') (stop c') \<and> start c' = zStart + zOff c' \<and>
                (start c' \<le> 0 \<and> stop c' \<le> 0 \<longrightarrow> \<bar>d1\<bar> \<le> \<bar>d2\<bar>)"
    unfolding c using m n by (simp add: Let_def) linarith
next
  assume D: "0 \<le> Ds"
  define p1 where "p1 = (if w1 < Ds / 2 then Ds / 2 - sqrt ((Ds / 2) ^ 2 - w1 ^ 2) else Ds / 2)"
  define p2 where "p2 = (if w2 < Ds / 2 then Ds / 2 - sqrt ((Ds / 2) ^ 2 - w2 ^ 2) else Ds / 2)"
  define sp where "sp = max (zStart - Ds / 2) zFinal"
  have w2: "0 \<le> w2" using assms by simp
  have m: "p1 \<le> p2" unfolding p1_def p2_def using ball_depth_mono [OF assms, of "Ds / 2"] .
  have n: "0 \<le> p1" unfolding p1_def using ball_depth_nonneg [OF assms(1), of "Ds / 2"] D by simp
  have e1: "WidthToDepth (SetLimits (Spherical_init Ds) zStart zFinal) w1 =
              Inr (max (zStart - p1) sp)"
    unfolding Spherical_limits p1_def sp_def by (rule spherical_WidthToDepth [OF assms(1)])
  have e2: "WidthToDepth (SetLimits (Spherical_init Ds) zStart zFinal) w2 =
              Inr (max (zStart - p2) sp)"
    unfolding Spherical_limits p2_def sp_def by (rule spherical_WidthToDepth [OF w2])
  have sel: "start (SetLimits (Spherical_init Ds) zStart zFinal) = zStart"
    "stop (SetLimits (Spherical_init Ds) zStart zFinal) = sp"
    by (simp_all add: Spherical_limits sp_def)
  have f: "zFinal \<le> sp" by (simp add: sp_def)
  have "max (zStart - p2) sp \<le> max (zStart - p1) sp \<and> zFinal \<le> sp \<and>
        sp \<le> max (zStart - p2) sp \<and> max (zStart - p1) sp \<le> max zStart sp \<and>
        (zStart \<le> 0 \<and> sp \<le> 0 \<longrightarrow> \<bar>max (zStart - p1) sp\<bar> \<le> \<bar>max (zStart - p2) sp\<bar>)"
    using m n f by (auto simp: max_def)
  then show "let c' = SetLimits (Spherical_init Ds) zStart zFinal in
             \<exists>d1 d2. WidthToDepth c' w1 = Inr d1 \<and> WidthToDepth c' w2 = Inr d2 \<and>
                d2 \<le> d1 \<and> zFinal \<le> stop c' \<and> stop c' \<le> d2 \<and>
                d1 \<le> max (start c') (stop c') \<and> start c' = zStart \<and>
                (start c' \<le> 0 \<and> stop c' \<le> 0 \<longrightarrow> \<bar>d1\<bar> \<le> \<bar>d2\<bar>)"
    unfolding Let_def e1 e2 sel by blast
qed simp_all

theorem depth_monotone_clamped_witness:
  "(0::real) \<le> 1 \<and> (1::real) \<le> 2 \<and> (0::real) < 90 \<and> (90::real) < 180 \<and>
   Conical_init 10 0 90 = Inr (Conical 5 0 1 0 0 0) \<and>
   WidthToDepth (SetLimits (Conical 5 0 1 0 0 0) 0 (- 10)) 1 = Inr (- 1) \<and>
   WidthToDepth (SetLimits (Conical 5 0 1 0 0 0) 0 (- 10)) 2 = Inr (- 2) \<and>
   start (SetLimits (Conical 5 0 1 0 0 0) 0 (- 10)) \<le> 0 \<and>
   stop (SetLimits (Conical 5 0 1 0 0 0) 0 (- 10)) \<le> 0 \<and>
   \<bar>- 1 :: real\<bar> \<le> \<bar>- 2\<bar> \<and>
   (0::real) \<le> 10 \<and>
   WidthToDepth (SetLimits (Spherical_init 10) 0 (- 10)) 5 = Inr (- 5) \<and>
   WidthToDepth (SetLimits (Spherical_init 10) 0 (- 10)) 6 = Inr (- 5)"
proof -
  have b: "Conical_init 10 0 90 = Inr (Conical 5 0 1 0 0 0)"
    using Conical_init_built [of 90 10 0] by (simp add: tan_radians_45)
  have "(0::real) \<le> 1" and "(1::real) \<le> 2" by simp_all
  from depth_monotone_clamped [OF this, of 90 10 0 0 "- 10" 10] b
  have "\<exists>d1 d2. WidthToDepth (SetLimits (Conical 5 0 1 0 0 0) 0 (- 10)) 1 = Inr d1 \<and>
                WidthToDepth (SetLimits (Conical 5 0 1 0 0 0) 0 (- 10)) 2 = Inr d2 \<and>
                d2 \<le> d1 \<and> \<bar>d1\<bar> \<le> \<bar>d2\<bar>"
    by (simp add: Let_def)
  with b show ?thesis by (simp add: Spherical_limits)
qed

section \<open>Properties of the path edges\<close>

lemma round_half_even_error: "\<bar>of_int (round_half_even r) - r\<bar> \<le> 1 / 2"
proof -
  have "of_int \<lfloor>r\<rfloor> \<le> r" and "r < of_int \<lfloor>r\<rfloor> + 1" by linarith+
  then show ?thesis
    by (auto simp: round_half_even_def Let_def)
qed

lemma py_round_grid: "py_round r 4 = of_int (round_half_even (r * 10000)) / 10000"
  by (simp add: py_round_def)

lemma py_round_error: "\<bar>py_round r 4 - r\<bar> \<le> 1 / 20000"
proof -
  have "\<bar>of_int (round_half_even (r * 10000)) - r * 10000\<bar> \<le> 1 / 2"
    by (rule round_half_even_error)
  then show ?thesis unfolding py_round_grid by (simp add: abs_le_iff field_simps)
qed

lemma round_half_even_eqI:
  assumes "\<bar>of_int k - r\<bar> < 1 / 2"
  shows "round_half_even r = k"
proof -
  from assms have "of_int k - 1 / 2 < r" and "r < of_int k + 1 / 2" by linarith+
  show ?thesis
  proof (cases "of_int k \<le> r")
    case True
    with \<open>r < of_int k + 1 / 2\<close> have "\<lfloor>r\<rfloor> = k" by (intro floor_unique) auto
    with \<open>r < of_int k + 1 / 2\<close> show ?thesis by (simp add: round_half_even_def Let_def)
  next
    case False
    with \<open>of_int k - 1 / 2 < r\<close> have "\<lfloor>r\<rfloor> = k - 1" by (intro floor_unique) auto
    with \<open>of_int k - 1 / 2 < r\<close> False show ?thesis by (simp add: round_half_even_def Let_def)
  qed
qed

text \<open>
  Claim C10. \<^verbatim>\<open>_getPartEdge\<close> resolves the clearance width at each end of a diagram edge
  to the calculator's depth rounded to 4 decimal places, and builds the 3D segment from
  the two rounded depths, which are its z-coordinates. A rounded depth is a whole
  multiple of \<open>10\<^sup>-\<^sup>4\<close> and differs from the calculator's depth by at most half of
  that; it is not the calculator's depth in general: for a 90 degree cone and the width
  0.12346 the calculator gives -0.12346 and the depth used is -0.1235.
\<close>
theorem getPartEdge_rounded_depths:
  "(\<forall>d0 d1. WidthToDepth calc (fst (getDistances e)) = Inr d0 \<and>
            WidthToDepth calc (snd (getDistances e)) = Inr d1 \<longrightarrow>
      calculate_depth (fst (getDistances e)) calc = Inr (py_round d0 4) \<and>
      calculate_depth (snd (getDistances e)) calc = Inr (py_round d1 4) \<and>
      getPartEdge e calc = Inr (toShape e (py_round d0 4) (py_round d1 4)) \<and>
      snd (snd (fst (toShape e (py_round d0 4) (py_round d1 4)))) = py_round d0 4 \<and>
      snd (snd (snd (toShape e (py_round d0 4) (py_round d1 4)))) = py_round d1 4) \<and>
   (\<exists>k :: int. py_round r 4 = of_int k / 10 ^ 4) \<and>
   \<bar>py_round r 4 - r\<bar> \<le> 1 / 2 / 10 ^ 4 \<and>
   WidthToDepth (Conical 5 0 1 0 0 (- 5)) 0.12346 = Inr (- 0.12346) \<and>
   calculate_depth 0.12346 (Conical 5 0 1 0 0 (- 5)) = Inr (- 0.1235)"
proof (intro conjI allI impI)
  show "\<exists>k :: int. py_round r 4 = of_int k / 10 ^ 4"
    unfolding py_round_def by blast
  show "\<bar>py_round r 4 - r\<bar> \<le> 1 / 2 / 10 ^ 4"
    using py_round_error [of r] by simp
  have "round_half_even (- 0.12346 * 10000) = - 1235"
    by (rule round_half_even_eqI) simp
  then show "calculate_depth 0.12346 (Conical 5 0 1 0 0 (- 5)) = Inr (- 0.1235)"
    by (simp add: calculate_depth_def py_round_grid)
qed (simp_all add: calculate_depth_def getPartEdge_def toShape_def Let_def)

theorem getPartEdge_rounded_depths_witness:
  "WidthToDepth (Conical 5 0 1 0 0 (- 5)) (fst (getDistances
      (Edge 0 PRIMARY (Vertex 0 0 0, Vertex 1 3 4) (0.12346, 2) 1 TWIN))) = Inr (- 0.12346) \<and>
   WidthToDepth (Conical 5 0 1 0 0 (- 5)) (snd (getDistances
      (Edge 0 PRIMARY (Vertex 0 0 0, Vertex 1 3 4) (0.12346, 2) 1 TWIN))) = Inr (- 2) \<and>
   getPartEdge (Edge 0 PRIMARY (Vertex 0 0 0, Vertex 1 3 4) (0.12346, 2) 1 TWIN)
      (Conical 5 0 1 0 0 (- 5)) = Inr ((0, 0, - 0.1235), (3, 4, - 2))"
proof -
  have a: "round_half_even (- 0.12346 * 10000) = - 1235"
    by (rule round_half_even_eqI) simp
  have b: "round_half_even (- 2 * 10000) = - 20000"
    by (rule round_half_even_eqI) simp
  have r: "py_round (- 0.12346) 4 = - 0.1235" "py_round (- 2) 4 = - 2"
    using a b by (simp_all add: py_round_grid)
  have w: "WidthToDepth (Conical 5 0 1 0 0 (- 5)) 0.12346 = Inr (- 0.12346)"
    "WidthToDepth (Conical 5 0 1 0 0 (- 5)) 2 = Inr (- 2)" by simp_all
  from getPartEdge_rounded_depths
    [of "Conical 5 0 1 0 0 (- 5)" "Edge 0 PRIMARY (Vertex 0 0 0, Vertex 1 3 4) (0.12346, 2) 1 TWIN"]
  have "getPartEdge (Edge 0 PRIMARY (Vertex 0 0 0, Vertex 1 3 4) (0.12346, 2) 1 TWIN)
          (Conical 5 0 1 0 0 (- 5)) =
        Inr (toShape (Edge 0 PRIMARY (Vertex 0 0 0, Vertex 1 3 4) (0.12346, 2) 1 TWIN)
               (py_round (- 0.12346) 4) (py_round (- 2) 4))"
    using w by simp
  then show ?thesis using w r by (simp add: toShape_def)
qed

lemma filter_even_upt: "filter even [0 ..< 2 * k - 1] = map (\<lambda>i. 2 * i) [0 ..< k]"
proof (induction k)
  case 0
  show ?case by simp
next
  case (Suc k)
  have "[0 ..< 2 * Suc k - 1] = [0 ..< 2 * k - 1] @ (if k = 0 then [] else [2 * k - 1]) @ [2 * k]"
    by (cases k) simp_all
  then show ?case using Suc by (cases k) simp_all
qed

lemma line_segments_even:
  assumes "length pts = 2 * k"
  shows "line_segments pts = map (\<lambda>i. (pts ! (2 * i), pts ! (2 * i + 1))) [0 ..< k]"
  unfolding line_segments_def assms filter_even_upt by (simp add: comp_def)

lemma concat_pairs:
  "length pts = 2 * k \<Longrightarrow> concat (map (\<lambda>i. [pts ! (2 * i), pts ! (2 * i + 1)]) [0 ..< k]) = pts"
proof (induction k arbitrary: pts)
  case 0
  then show ?case by simp
next
  case (Suc k)
  let ?t = "take (2 * k) pts"
  have lt: "length ?t = 2 * k" using Suc.prems by simp
  have pts: "pts = ?t @ [pts ! (2 * k), pts ! (2 * k + 1)]"
  proof -
    have l: "length pts = Suc (Suc (2 * k))" using Suc.prems by simp
    have "drop (2 * k) pts = pts ! (2 * k) # drop (Suc (2 * k)) pts"
      using l by (intro Cons_nth_drop_Suc [symmetric]) simp
    moreover have "drop (Suc (2 * k)) pts = pts ! (Suc (2 * k)) # drop (Suc (Suc (2 * k))) pts"
      using l by (intro Cons_nth_drop_Suc [symmetric]) simp
    moreover have "drop (Suc (Suc (2 * k))) pts = []" using l by simp
    ultimately have "drop (2 * k) pts = [pts ! (2 * k), pts ! (2 * k + 1)]" by simp
    then show ?thesis using append_take_drop_id [of "2 * k" pts] by simp
  qed
  have "map (\<lambda>i. [pts ! (2 * i), pts ! (2 * i + 1)]) [0 ..< k]
        = map (\<lambda>i. [?t ! (2 * i), ?t ! (2 * i + 1)]) [0 ..< k]"
    by (rule map_cong) auto
  then have "concat (map (\<lambda>i. [pts ! (2 * i), pts ! (2 * i + 1)]) [0 ..< k]) = ?t"
    using Suc.IH [OF lt] by (simp only:)
  then have "concat (map (\<lambda>i. [pts ! (2 * i), pts ! (2 * i + 1)]) [0 ..< Suc k])
             = ?t @ [pts ! (2 * k), pts ! (2 * k + 1)]" by simp
  with pts show ?case by simp
qed


lemma insert_median_odd:
  assumes "odd (length sp)" and "length sp \<noteq> 1"
  shows "insert_median sp =
           Inr (butlast sp @ [median (sp ! (length sp - 2)) (sp ! (length sp - 1)), last sp])"
proof -
  from assms have "\<not> length sp < 2" by (cases "length sp") (auto simp: less_Suc_eq)
  then show ?thesis by (simp add: insert_median_def Let_def)
qed

text \<open>
  Claim C9. Let \<open>sp\<close> be the simplified point list of a non-empty list of path edges,
  not a single point. \<^verbatim>\<open>median\<close> of two points is their midpoint, the mean of each
  coordinate. When the length of \<open>sp\<close> is odd, \<^verbatim>\<open>simplify_edges\<close> inserts the midpoint
  of its last two points before the last one. The final list \<open>pts\<close> has even length; its
  first and last point are those of \<open>sp\<close>, and those of the input polyline when the
  simplifier kept them; the result is the list of the segments from the point \<open>2i\<close> to
  the point \<open>2i + 1\<close>, and the end points of these segments, in order, are exactly
  \<open>pts\<close>: no point is left unpaired.
\<close>
theorem simplify_edges_whole_segments:
  assumes "edges \<noteq> []"
    and "sp = simplify3dLine (fst (hd edges) # map snd edges)"
    and "length sp \<noteq> 1"
  shows "(\<forall>px py pz qx qy qz.
            median (px, py, pz) (qx, qy, qz) = ((px + qx) / 2, (py + qy) / 2, (pz + qz) / 2)) \<and>
         (let pts = (if odd (length sp)
                     then butlast sp @ [median (sp ! (length sp - 2)) (sp ! (length sp - 1)),
                                         last sp]
                     else sp);
              segs = map (\<lambda>i. (pts ! (2 * i), pts ! (2 * i + 1))) [0 ..< length pts div 2]
          in even (length pts) \<and>
             simplify_edges simplify3dLine edges = Inr segs \<and>
             concat (map (\<lambda>(p, q). [p, q]) segs) = pts \<and>
             (sp \<noteq> [] \<longrightarrow> hd pts = hd sp \<and> last pts = last sp \<and> segs \<noteq> [] \<and>
                fst (hd segs) = hd sp \<and> snd (last segs) = last sp) \<and>
             (sp \<noteq> [] \<and> hd sp = fst (hd edges) \<and> last sp = snd (last edges) \<longrightarrow>
                fst (hd segs) = fst (hd edges) \<and> snd (last segs) = snd (last edges)))"
proof -
  define pts where "pts = (if odd (length sp)
                     then butlast sp @ [median (sp ! (length sp - 2)) (sp ! (length sp - 1)),
                                         last sp]
                     else sp)"
  define k where "k = length pts div 2"
  define segs where "segs = map (\<lambda>i. (pts ! (2 * i), pts ! (2 * i + 1))) [0 ..< k]"
  have ev: "even (length pts)" by (auto simp: pts_def)
  then have len: "length pts = 2 * k" by (auto simp: k_def)
  obtain e0 rest where edges: "edges = e0 # rest" using assms(1) by (cases edges) auto
  have fixup: "(if length sp mod 2 \<noteq> 0 then insert_median sp else Inr sp) = Inr pts"
  proof (cases "odd (length sp)")
    case True
    then have "length sp mod 2 \<noteq> 0" by presburger
    with True insert_median_odd [OF True assms(3)] show ?thesis by (simp add: pts_def)
  next
    case False
    then have "length sp mod 2 = 0" by presburger
    with False show ?thesis by (simp add: pts_def)
  qed
  have "simplify_edges simplify3dLine edges =
          (case (if length sp mod 2 \<noteq> 0 then insert_median sp else Inr sp) of
             Inl err \<Rightarrow> Inl err
           | Inr p \<Rightarrow> Inr (line_segments p))"
    unfolding assms(2) by (simp add: simplify_edges_def edges Let_def)
  also have "\<dots> = Inr segs"
    unfolding fixup using line_segments_even [OF len] by (simp add: segs_def)
  finally have res: "simplify_edges simplify3dLine edges = Inr segs" .
  have cc: "concat (map (\<lambda>(p, q). [p, q]) segs) = pts"
    using concat_pairs [OF len] by (simp add: segs_def comp_def)
  have ends: "hd pts = hd sp \<and> last pts = last sp \<and> segs \<noteq> [] \<and>
              fst (hd segs) = hd sp \<and> snd (last segs) = last sp" if ne: "sp \<noteq> []"
  proof -
    from ne assms(3) have l2: "2 \<le> length sp" by (cases sp) (auto simp: Suc_le_eq)
    then have bne: "butlast sp \<noteq> []" by (cases sp) auto
    have h: "hd pts = hd sp" using bne ne by (cases sp) (auto simp: pts_def)
    have l: "last pts = last sp" by (simp add: pts_def)
    have "2 \<le> length pts" using l2 by (auto simp: pts_def)
    then have k: "0 < k" using len by simp
    then have sne: "segs \<noteq> []" by (simp add: segs_def)
    have pne: "pts \<noteq> []" using \<open>2 \<le> length pts\<close> by auto
    have "hd segs = (pts ! 0, pts ! 1)" using k by (simp add: segs_def hd_map upt_conv_Cons)
    then have f: "fst (hd segs) = hd sp" using h pne by (simp add: hd_conv_nth)
    have "last segs = (pts ! (2 * (k - 1)), pts ! (2 * (k - 1) + 1))"
      using k by (cases k) (simp_all add: segs_def)
    moreover have "2 * (k - 1) + 1 = length pts - 1" using k len by simp
    ultimately have "snd (last segs) = last pts" using pne by (simp add: last_conv_nth)
    with h l sne f show ?thesis by simp
  qed
  have mid: "median (px, py, pz) (qx, qy, qz) = ((px + qx) / 2, (py + qy) / 2, (pz + qz) / 2)"
    for px py pz qx qy qz
    by (simp add: median_def Vector_sub_def Vector_scale_def Vector_add_def field_simps)
  have main: "even (length pts) \<and>
             simplify_edges simplify3dLine edges = Inr segs \<and>
             concat (map (\<lambda>(p, q). [p, q]) segs) = pts \<and>
             (sp \<noteq> [] \<longrightarrow> hd pts = hd sp \<and> last pts = last sp \<and> segs \<noteq> [] \<and>
                fst (hd segs) = hd sp \<and> snd (last segs) = last sp) \<and>
             (sp \<noteq> [] \<and> hd sp = fst (hd edges) \<and> last sp = snd (last edges) \<longrightarrow>
                fst (hd segs) = fst (hd edges) \<and> snd (last segs) = snd (last edges))"
    using ev res cc ends by auto
  show ?thesis
    unfolding Let_def pts_def [symmetric] k_def [symmetric] segs_def [symmetric]
    using mid main by blast
qed

theorem simplify_edges_whole_segments_witness:
  "[((0, 0, 0), (2, 0, 0)), ((2, 0, 0), (4, 0, - 1)), ((4, 0, - 1), (6 :: real, 0 :: real, - 3 :: real))] \<noteq> [] \<and>
   length [(0 :: real, 0 :: real, 0 :: real), (2, 0, 0), (6, 0, - 3)] \<noteq> 1 \<and>
   hd [(0 :: real, 0 :: real, 0 :: real), (2, 0, 0), (6, 0, - 3)] = (0, 0, 0) \<and>
   last [(0 :: real, 0 :: real, 0 :: real), (2, 0, 0), (6, 0, - 3)] = (6, 0, - 3) \<and>
   simplify_edges (\<lambda>ps. [hd ps, ps ! 1, last ps])
      [((0, 0, 0), (2, 0, 0)), ((2, 0, 0), (4, 0, - 1)), ((4, 0, - 1), (6, 0, - 3))]
   = Inr [((0, 0, 0), (2, 0, 0)), ((4, 0, - 3 / 2), (6, 0, - 3))]"
proof -
  let ?f = "\<lambda>ps :: vector list. [hd ps, ps ! 1, last ps]"
  let ?edges = "[((0, 0, 0), (2, 0, 0)), ((2, 0, 0), (4, 0, - 1)), ((4, 0, - 1), (6, 0, - 3))]
                  :: part_edge list"
  let ?sp = "[(0, 0, 0), (2, 0, 0), (6, 0, - 3)] :: vector list"
  have sp: "?sp = ?f (fst (hd ?edges) # map snd ?edges)"
    by simp
  have ne: "?edges \<noteq> []" and l: "length ?sp \<noteq> 1" by simp_all
  have u: "[0 ..< 2] = [0, 1]" by (simp add: upt_conv_Cons)
  note th = simplify_edges_whole_segments
    [where simplify3dLine = ?f and edges = ?edges and sp = ?sp, OF ne sp l]
  from th have "median (2, 0, 0) (6, 0, - 3) = ((2 + 6) / 2, (0 + 0) / 2, (0 + - 3) / 2)"
    by blast
  then have m: "median (2, 0, 0) (6, 0, - 3) = (4, 0, - 3 / 2)" by simp
  from th
  have "simplify_edges ?f ?edges = Inr [((0, 0, 0), (2, 0, 0)), ((4, 0, - 3 / 2), (6, 0, - 3))]"
    by (simp add: Let_def m u)
  then show ?thesis by simp
qed

section \<open>Properties of the run\<close>

lemma collect_faces_Inr:
  assumes "collect_faces voronoi faces acc = Inr r" and "f \<in> set faces"
  shows "\<exists>vd wires. voronoi f = Inr vd \<and> collectVoronoiWires vd = Inr wires"
  using assms
proof (induction faces arbitrary: acc)
  case Nil
  then show ?case by simp
next
  case (Cons g faces)
  from Cons.prems(1) obtain vd wires wires' where
    g: "voronoi g = Inr vd" "collectVoronoiWires vd = Inr wires" and
    rest: "collect_faces voronoi faces (acc @ wires') = Inr r"
    by (auto split: sum.splits)
  show ?case
  proof (cases "f = g")
    case True
    with g show ?thesis by blast
  next
    case False
    with Cons.prems(2) have "f \<in> set faces" by simp
    from Cons.IH [OF rest this] show ?thesis .
  qed
qed

lemma build_paths_Inr:
  assumes "build_paths simplify3dLine cmdsForEdge ob calc ws acc = Inr r" and "w \<in> set ws"
  shows "\<exists>p. getPartEdges simplify3dLine w calc = Inr p"
  using assms
proof (induction ws arbitrary: acc)
  case Nil
  then show ?case by simp
next
  case (Cons v ws)
  from Cons.prems(1) obtain p acc' where
    v: "getPartEdges simplify3dLine v calc = Inr p" and
    rest: "build_paths simplify3dLine cmdsForEdge ob calc ws acc' = Inr r"
    by (auto split: sum.splits if_splits)
  show ?case
  proof (cases "w = v")
    case True
    with v show ?thesis by blast
  next
    case False
    with Cons.prems(2) have "w \<in> set ws" by simp
    from Cons.IH [OF rest this] show ?thesis .
  qed
qed

lemma build_paths_prefix:
  "build_paths simplify3dLine cmdsForEdge ob calc ws acc = Inr r \<Longrightarrow> \<exists>more. r = acc @ more"
proof (induction ws arbitrary: acc)
  case Nil
  then show ?case by simp
next
  case (Cons v ws)
  from Cons.prems obtain acc' where
    "build_paths simplify3dLine cmdsForEdge ob calc ws acc' = Inr r" and "\<exists>m. acc' = acc @ m"
    by (auto split: sum.splits if_splits)
  with Cons.IH [of acc'] show ?case by auto
qed

lemma buildPathMedial_raise_keeps:
  assumes "buildPathMedial voronoi simplify3dLine cmdsForEdge self ob calc faces = (self', Some err)"
  shows "self' = self"
  using assms by (auto simp: buildPathMedial_def split: sum.splits if_splits)

lemma buildPathMedial_commit:
  assumes "buildPathMedial voronoi simplify3dLine cmdsForEdge self ob calc faces = (self', None)"
  shows "\<exists>ws ws' more.
           collect_faces voronoi faces [] = Inr ws \<and>
           sortVoronoiWires ws (0, 0, 0) = Inr ws' \<and>
           build_paths simplify3dLine cmdsForEdge ob calc ws' [Comment ''(starting)'']
             = Inr (Comment ''(starting)'' # more) \<and>
           self' = self\<lparr>commandlist := Comment ''(starting)'' # more\<rparr>"
proof -
  from assms obtain ws ws' pl where
    a: "collect_faces voronoi faces [] = Inr ws" "sortVoronoiWires ws (0, 0, 0) = Inr ws'"
       "build_paths simplify3dLine cmdsForEdge ob calc ws' [Comment ''(starting)''] = Inr pl"
       "self' = self\<lparr>commandlist := pl\<rparr>"
    by (auto simp: buildPathMedial_def sorting_def split: sum.splits)
  from build_paths_prefix [OF a(3)] obtain more where "pl = Comment ''(starting)'' # more"
    by auto
  with a show ?thesis by blast
qed

lemma supported_prints_nothing:
  assumes "WidthToDepthCalculator tool bitShape zStart zFinal = Inr (printed, calc)"
    and "SupportsVcarve calc"
  shows "printed = []"
  using assms
  by (auto simp: WidthToDepthCalculator_def split: if_splits sum.splits)


text \<open>
  Claim C7. For a supported tool and a non-empty list of faces: when building the
  diagram or collecting the wires raises for any one face, or building the path of any
  wire raises, \<^verbatim>\<open>buildPathMedial\<close> raises. Whenever it raises, the object is as it was
  before, so nothing of the faces done earlier is committed, and \<^verbatim>\<open>opExecute\<close> returns
  normally with the command list unchanged and one error line logged for the run. Only
  when \<^verbatim>\<open>buildPathMedial\<close> raises nothing is the command list assigned, and then it is
  the whole path list.
\<close>
theorem opExecute_commits_nothing_on_failure:
  assumes "WidthToDepthCalculator tool bitShape zMax (FinalDepth ob) = Inr (printed, calc)"
    and "SupportsVcarve calc" and "faces \<noteq> []"
  shows "((\<exists>f \<in> set faces. \<exists>e. voronoi f = Inl e \<or>
             (\<exists>vd. voronoi f = Inr vd \<and> collectVoronoiWires vd = Inl e)) \<longrightarrow>
            snd (buildPathMedial voronoi simplify3dLine cmdsForEdge self ob calc faces) \<noteq> None) \<and>
         ((\<exists>ws ws' w e. collect_faces voronoi faces [] = Inr ws \<and>
              sortVoronoiWires ws (0, 0, 0) = Inr ws' \<and> w \<in> set ws' \<and>
              getPartEdges simplify3dLine w calc = Inl e) \<longrightarrow>
            snd (buildPathMedial voronoi simplify3dLine cmdsForEdge self ob calc faces) \<noteq> None) \<and>
         (snd (buildPathMedial voronoi simplify3dLine cmdsForEdge self ob calc faces) \<noteq> None \<longrightarrow>
            fst (buildPathMedial voronoi simplify3dLine cmdsForEdge self ob calc faces) = self \<and>
            opExecute voronoi simplify3dLine cmdsForEdge self ob tool bitShape zMax faces =
              Inr (self\<lparr>console := console self @
                [''Error processing Base object. Engraving operation will produce no output.'']\<rparr>)) \<and>
         (snd (buildPathMedial voronoi simplify3dLine cmdsForEdge self ob calc faces) = None \<longrightarrow>
            (\<exists>ws ws' more.
               collect_faces voronoi faces [] = Inr ws \<and>
               sortVoronoiWires ws (0, 0, 0) = Inr ws' \<and>
               build_paths simplify3dLine cmdsForEdge ob calc ws' [Comment ''(starting)'']
                 = Inr (Comment ''(starting)'' # more) \<and>
               opExecute voronoi simplify3dLine cmdsForEdge self ob tool bitShape zMax faces =
                 Inr (self\<lparr>commandlist := Comment ''(starting)'' # more\<rparr>)))"
proof -
  let ?b = "buildPathMedial voronoi simplify3dLine cmdsForEdge self ob calc faces"
  have p: "printed = []" using supported_prints_nothing [OF assms(1,2)] .
  have ex: "opExecute voronoi simplify3dLine cmdsForEdge self ob tool bitShape zMax faces =
              (case ?b of
                 (self2, None) \<Rightarrow> Inr self2
               | (self2, Some err) \<Rightarrow>
                   Inr (self2\<lparr>console := console self2 @
                     [''Error processing Base object. Engraving operation will produce no output.'']\<rparr>))"
    using assms by (simp add: opExecute_def p)
  have region: "snd ?b \<noteq> None"
    if "\<exists>f \<in> set faces. \<exists>e. voronoi f = Inl e \<or>
             (\<exists>vd. voronoi f = Inr vd \<and> collectVoronoiWires vd = Inl e)"
  proof -
    from that obtain f e where f: "f \<in> set faces"
      and bad: "voronoi f = Inl e \<or> (\<exists>vd. voronoi f = Inr vd \<and> collectVoronoiWires vd = Inl e)"
      by blast
    have "\<exists>e'. collect_faces voronoi faces [] = Inl e'"
    proof (cases "collect_faces voronoi faces []")
      case (Inl e')
      then show ?thesis by blast
    next
      case (Inr r)
      from collect_faces_Inr [OF Inr f] bad show ?thesis by auto
    qed
    then show ?thesis by (auto simp: buildPathMedial_def)
  qed
  have paths: "snd ?b \<noteq> None"
    if "\<exists>ws ws' w e. collect_faces voronoi faces [] = Inr ws \<and>
              sortVoronoiWires ws (0, 0, 0) = Inr ws' \<and> w \<in> set ws' \<and>
              getPartEdges simplify3dLine w calc = Inl e"
  proof -
    from that obtain ws ws' w e where a: "collect_faces voronoi faces [] = Inr ws"
      "sortVoronoiWires ws (0, 0, 0) = Inr ws'" "w \<in> set ws'"
      "getPartEdges simplify3dLine w calc = Inl e" by blast
    have "\<exists>e'. build_paths simplify3dLine cmdsForEdge ob calc ws' [Comment ''(starting)''] = Inl e'"
    proof (cases "build_paths simplify3dLine cmdsForEdge ob calc ws' [Comment ''(starting)'']")
      case (Inl e')
      then show ?thesis by blast
    next
      case (Inr r)
      from build_paths_Inr [OF Inr a(3)] a(4) show ?thesis by auto
    qed
    with a(1,2) show ?thesis by (auto simp: buildPathMedial_def sorting_def)
  qed
  have fail: "fst ?b = self \<and>
      opExecute voronoi simplify3dLine cmdsForEdge self ob tool bitShape zMax faces =
        Inr (self\<lparr>console := console self @
          [''Error processing Base object. Engraving operation will produce no output.'']\<rparr>)"
    if "snd ?b \<noteq> None"
  proof -
    from that obtain self' err where b: "?b = (self', Some err)" by (cases ?b) auto
    from buildPathMedial_raise_keeps [OF b] have "self' = self" .
    with b ex show ?thesis by simp
  qed
  have ok: "\<exists>ws ws' more.
               collect_faces voronoi faces [] = Inr ws \<and>
               sortVoronoiWires ws (0, 0, 0) = Inr ws' \<and>
               build_paths simplify3dLine cmdsForEdge ob calc ws' [Comment ''(starting)'']
                 = Inr (Comment ''(starting)'' # more) \<and>
               opExecute voronoi simplify3dLine cmdsForEdge self ob tool bitShape zMax faces =
                 Inr (self\<lparr>commandlist := Comment ''(starting)'' # more\<rparr>)"
    if "snd ?b = None"
  proof -
    from that obtain self' where b: "?b = (self', None)" by (cases ?b) auto
    from buildPathMedial_commit [OF b] obtain ws ws' more where
      c: "collect_faces voronoi faces [] = Inr ws" "sortVoronoiWires ws (0, 0, 0) = Inr ws'"
         "build_paths simplify3dLine cmdsForEdge ob calc ws' [Comment ''(starting)'']
             = Inr (Comment ''(starting)'' # more)"
         "self' = self\<lparr>commandlist := Comment ''(starting)'' # more\<rparr>" by blast
    from b ex c(4) have "opExecute voronoi simplify3dLine cmdsForEdge self ob tool bitShape zMax faces =
                 Inr (self\<lparr>commandlist := Comment ''(starting)'' # more\<rparr>)" by simp
    with c show ?thesis by blast
  qed
  from region paths fail ok show ?thesis by blast
qed


theorem opExecute_commits_nothing_on_failure_witness:
  "WidthToDepthCalculator \<lparr>Diameter = 10, TipDiameter = 0, CuttingEdgeAngle = 90\<rparr>
      ''v-bit.fcstd'' 0 (FinalDepth \<lparr>SafeHeight = 5, HorizFeed = 1, VertFeed = 1, FinalDepth = - 10\<rparr>)
     = Inr ([], Conical 5 0 1 0 0 (- 5)) \<and>
   SupportsVcarve (Conical 5 0 1 0 0 (- 5)) \<and> [0 :: nat, 1] \<noteq> [] \<and>
   (1 :: nat) \<in> set [0, 1] \<and>
   opExecute
      (\<lambda>f :: nat. if f = 0
         then Inr (Diagram [Edge 0 PRIMARY (Vertex 0 0 0, Vertex 1 4 0) (0, 1) 1 TWIN])
         else Inl (External ''degenerate boundary''))
      (\<lambda>ps. ps) (\<lambda>e h v. [])
      \<lparr>commandlist = [Comment ''previous run''], console = []\<rparr>
      \<lparr>SafeHeight = 5, HorizFeed = 1, VertFeed = 1, FinalDepth = - 10\<rparr>
      \<lparr>Diameter = 10, TipDiameter = 0, CuttingEdgeAngle = 90\<rparr> ''v-bit.fcstd'' 0 [0, 1]
     = Inr \<lparr>commandlist = [Comment ''previous run''],
            console = [''Error processing Base object. Engraving operation will produce no output.'']\<rparr>"
proof -
  let ?tool = "\<lparr>Diameter = 10, TipDiameter = 0, CuttingEdgeAngle = 90\<rparr>"
  let ?ob = "\<lparr>SafeHeight = 5, HorizFeed = 1, VertFeed = 1, FinalDepth = - 10\<rparr>"
  let ?v = "\<lambda>f :: nat. if f = 0
         then Inr (Diagram [Edge 0 PRIMARY (Vertex 0 0 0, Vertex 1 4 0) (0, 1) 1 TWIN])
         else Inl (External ''degenerate boundary'')"
  have i: "Conical_init 10 0 90 = Inr (Conical 5 0 1 0 0 0)"
    using Conical_init_built [of 90 10 0] by (simp add: tan_radians_45)
  have f: "WidthToDepthCalculator ?tool ''v-bit.fcstd'' 0 (FinalDepth ?ob)
             = Inr ([], Conical 5 0 1 0 0 (- 5))"
    using i by (simp add: WidthToDepthCalculator_def endswith_def)
  have s: "SupportsVcarve (Conical 5 0 1 0 0 (- 5))" by simp
  have n: "[0 :: nat, 1] \<noteq> []" by simp
  have bad: "\<exists>f \<in> set [0 :: nat, 1]. \<exists>e. ?v f = Inl e \<or>
               (\<exists>vd. ?v f = Inr vd \<and> collectVoronoiWires vd = Inl e)"
    by (intro bexI [of _ 1]) auto
  from opExecute_commits_nothing_on_failure [OF f s n, of ?v "\<lambda>ps. ps" "\<lambda>e h v. []"
      "\<lparr>commandlist = [Comment ''previous run''], console = []\<rparr>"] bad
  have "opExecute ?v (\<lambda>ps. ps) (\<lambda>e h v. [])
          \<lparr>commandlist = [Comment ''previous run''], console = []\<rparr> ?ob ?tool ''v-bit.fcstd'' 0 [0, 1]
        = Inr \<lparr>commandlist = [Comment ''previous run''],
            console = [''Error processing Base object. Engraving operation will produce no output.'']\<rparr>"
    by simp
  with f show ?thesis by simp
qed

section \<open>Properties of the wire sequencer\<close>

lemma Twin_Twin: "Twin (Twin e) = e"
  by (cases e) (simp add: Twin_def)

lemma Vertices_Twin: "Vertices (Twin e) = prod.swap (Vertices e)"
  by (simp add: Twin_def)




lemma wire_begin_reversed: "w \<noteq> [] \<Longrightarrow> wire_begin (reversed_wire w) = wire_end w"
  by (simp add: wire_end_def wire_begin_def reversed_wire_def hd_map Vertices_Twin hd_rev)




















section \<open>Properties of the wire assembly\<close>

lemma adjacent_Nil [simp]: "adjacent [] v = []"
  by (simp add: adjacent_def)

lemma adjacent_Cons:
  "adjacent (e # es) v =
     (if v = edge_from e then [e] else []) @ (if v = edge_to e then [e] else []) @ adjacent es v"
  by (simp add: adjacent_def)

lemma set_adjacent:
  "set (adjacent es v) = {e \<in> set es. v = edge_from e \<or> v = edge_to e}"
  by (induction es) (auto simp: adjacent_Cons)

lemma adjacent_filter:
  assumes "\<forall>e \<in> set es. edge_from e \<noteq> edge_to e"
  shows "adjacent es v = filter (\<lambda>e. v = edge_from e \<or> v = edge_to e) es"
  using assms by (induction es) (auto simp: adjacent_Cons)

lemma distinct_adjacent:
  assumes "\<forall>e \<in> set es. edge_from e \<noteq> edge_to e" and "distinct (map Index es)"
  shows "distinct (map Index (adjacent es v))"
  unfolding adjacent_filter [OF assms(1)] using assms(2) by (rule distinct_map_filter)

lemma map_of_add_edge:
  "map_of (add_edge vertex i e) v =
     (if v = i then Some ((case map_of vertex i of None \<Rightarrow> [] | Some es \<Rightarrow> es) @ [e])
      else map_of vertex v)"
  by (simp add: add_edge_def Let_def update_conv')

lemma map_of_build_vertex:
  "map_of (build_vertex es vertex) v =
     (case map_of vertex v of
        None \<Rightarrow> (if adjacent es v = [] then None else Some (adjacent es v))
      | Some old \<Rightarrow> Some (old @ adjacent es v))"
proof (induction es arbitrary: vertex)
  case Nil
  then show ?case by (simp split: option.splits)
next
  case (Cons e es)
  show ?case
    by (simp add: Cons.IH map_of_add_edge adjacent_Cons edge_from_def edge_to_def
        split: option.splits)
qed

lemma remaining_build_vertex: "remaining es {} (build_vertex es [])"
  by (simp add: remaining_def map_of_build_vertex)

lemma lookup_remaining:
  assumes "remaining es C vertex"
  shows "lookup vertex v =
           (if adjacent es v = [] then Inl KeyError
            else Inr (filter (\<lambda>e. e \<notin> C) (adjacent es v)))"
  using assms by (simp add: lookup_def remaining_def)

lemma filter_Index_remaining:
  assumes "distinct (map Index es)" and "e' \<in> set es"
  shows "filter (\<lambda>e. Index e \<noteq> Index e') (filter (\<lambda>e. e \<notin> C) (adjacent es v))
         = filter (\<lambda>e. e \<notin> insert e' C) (adjacent es v)"
proof -
  have "Index e \<noteq> Index e' \<longleftrightarrow> e \<noteq> e'" if "e \<in> set (adjacent es v)" for e
  proof -
    from that have "e \<in> set es" by (simp add: set_adjacent)
    with assms show ?thesis by (metis distinct_map inj_on_def)
  qed
  then show ?thesis by (auto simp: filter_filter intro!: filter_cong)
qed


lemma consume_remaining:
  assumes "map_of vertex v = Some (filter (\<lambda>e. e \<notin> D) (adjacent es v))"
    and "distinct (map Index es)" and "e' \<in> set es" and "D = C \<or> D = insert e' C"
  shows "\<exists>vertex'. consume vertex v e' =
             Inr (vertex', filter (\<lambda>e. e \<notin> insert e' C) (adjacent es v) = []) \<and>
           map_of vertex' = (map_of vertex)(v \<mapsto> filter (\<lambda>e. e \<notin> insert e' C) (adjacent es v))"
proof -
  have "filter (\<lambda>e. Index e \<noteq> Index e') (filter (\<lambda>e. e \<notin> D) (adjacent es v))
        = filter (\<lambda>e. e \<notin> insert e' D) (adjacent es v)"
    by (rule filter_Index_remaining [OF assms(2,3)])
  also have "insert e' D = insert e' C" using assms(4) by auto
  finally show ?thesis
    using assms(1) by (simp add: consume_def lookup_def Let_def update_conv')
qed

lemma traverse_alt:
  "traverse vertex vStart edge edges =
     (case consume vertex vStart edge of
        Inl err \<Rightarrow> Inl err
      | Inr (vertex1, _) \<Rightarrow>
          (case consume vertex1 (if vStart = edge_from edge then edge_to edge else edge_from edge)
                  edge of
             Inl err \<Rightarrow> Inl err
           | Inr (vertex2, emptied) \<Rightarrow>
               Inr (vertex2, edges @ [if vStart = edge_from edge then edge else Twin edge],
                    if emptied then None
                    else Some (if vStart = edge_from edge then edge_to edge else edge_from edge))))"
  unfolding traverse_def edge_from_def edge_to_def Let_def
  by (cases "vStart = vertex.Index (fst (Vertices edge))") (auto split: sum.splits prod.splits)

lemma traverse_remaining:
  assumes rem: "remaining es C vertex" and d: "distinct (map Index es)"
    and e: "e' \<in> set es" and v: "v = edge_from e' \<or> v = edge_to e'"
    and u: "u = (if v = edge_from e' then edge_to e' else edge_from e')"
  shows "\<exists>vertex'.
           traverse vertex v e' we =
             Inr (vertex', we @ [if v = edge_from e' then e' else Twin e'],
                  if filter (\<lambda>e. e \<notin> insert e' C) (adjacent es u) = [] then None else Some u) \<and>
           remaining es (insert e' C) vertex'"
proof -
  let ?C' = "insert e' C"
  have av: "e' \<in> set (adjacent es v)" using e v by (simp add: set_adjacent)
  have au: "e' \<in> set (adjacent es u)" using e v u by (auto simp: set_adjacent)
  from av have nv: "adjacent es v \<noteq> []" by auto
  from au have nu: "adjacent es u \<noteq> []" by auto
  from rem nv have mv: "map_of vertex v = Some (filter (\<lambda>e. e \<notin> C) (adjacent es v))"
    by (simp add: remaining_def)
  from consume_remaining [OF mv d e] obtain vertex1 where
    c1: "consume vertex v e' = Inr (vertex1, filter (\<lambda>e. e \<notin> ?C') (adjacent es v) = [])" and
    m1: "map_of vertex1 = (map_of vertex)(v \<mapsto> filter (\<lambda>e. e \<notin> ?C') (adjacent es v))"
    by blast
  have "\<exists>D. map_of vertex1 u = Some (filter (\<lambda>e. e \<notin> D) (adjacent es u)) \<and> (D = C \<or> D = ?C')"
  proof (cases "u = v")
    case True
    with m1 have "map_of vertex1 u = Some (filter (\<lambda>e. e \<notin> ?C') (adjacent es u))" by simp
    then show ?thesis by blast
  next
    case False
    with m1 rem nu have "map_of vertex1 u = Some (filter (\<lambda>e. e \<notin> C) (adjacent es u))"
      by (simp add: remaining_def)
    then show ?thesis by blast
  qed
  then obtain D where mu: "map_of vertex1 u = Some (filter (\<lambda>e. e \<notin> D) (adjacent es u))"
    and D: "D = C \<or> D = ?C'" by blast
  from consume_remaining [OF mu d e D] obtain vertex2 where
    c2: "consume vertex1 u e' = Inr (vertex2, filter (\<lambda>e. e \<notin> ?C') (adjacent es u) = [])" and
    m2: "map_of vertex2 = (map_of vertex1)(u \<mapsto> filter (\<lambda>e. e \<notin> ?C') (adjacent es u))"
    by blast
  have r2: "remaining es ?C' vertex2"
    unfolding remaining_def
  proof
    fix w
    show "map_of vertex2 w =
            (if adjacent es w = [] then None else Some (filter (\<lambda>e. e \<notin> ?C') (adjacent es w)))"
    proof (cases "w = u \<or> w = v")
      case True
      with m1 m2 nu nv show ?thesis by auto
    next
      case False
      then have "e' \<notin> set (adjacent es w)" using u v by (auto simp: set_adjacent)
      then have "filter (\<lambda>e. e \<notin> ?C') (adjacent es w) = filter (\<lambda>e. e \<notin> C) (adjacent es w)"
        by (intro filter_cong) auto
      with False m1 m2 rem show ?thesis by (simp add: remaining_def)
    qed
  qed
  have "traverse vertex v e' we =
             Inr (vertex2, we @ [if v = edge_from e' then e' else Twin e'],
                  if filter (\<lambda>e. e \<notin> ?C') (adjacent es u) = [] then None else Some u)"
    unfolding traverse_alt u [symmetric] using c1 c2 by simp
  with r2 show ?thesis by blast
qed


lemma Twin_ends: "edge_from (Twin e) = edge_to e" "edge_to (Twin e) = edge_from e"
  by (simp_all add: Twin_def edge_from_def edge_to_def)

lemma left_at_insert:
  "left_at es (insert e' C) v = filter (\<lambda>e. e \<noteq> e') (left_at es C v)"
  by (auto simp: filter_filter intro!: filter_cong)

lemma left_at_insert_other:
  assumes "v \<noteq> edge_from e'" and "v \<noteq> edge_to e'"
  shows "left_at es (insert e' C) v = left_at es C v"
proof -
  from assms have "e' \<notin> set (adjacent es v)" by (auto simp: set_adjacent)
  then show ?thesis by (intro filter_cong) auto
qed

lemma distinct_adjacent_edges:
  assumes "\<forall>e \<in> set es. edge_from e \<noteq> edge_to e" and "distinct (map Index es)"
  shows "distinct (adjacent es v)"
  using distinct_adjacent [OF assms, of v] by (simp add: distinct_map)

lemma length_filter_neq:
  assumes "distinct xs" and "x \<in> set xs"
  shows "Suc (length (filter (\<lambda>y. y \<noteq> x) xs)) = length xs"
  using assms
proof (induction xs)
  case Nil
  then show ?case by simp
next
  case (Cons a xs)
  show ?case
  proof (cases "a = x")
    case True
    with Cons.prems have "filter (\<lambda>y. y \<noteq> x) xs = xs" by (auto simp: filter_id_conv)
    with True show ?thesis by simp
  next
    case False
    with Cons show ?thesis by simp
  qed
qed

text \<open>One edge further along a wire.\<close>

lemma walking_step:
  assumes nl: "\<forall>e \<in> set es. edge_from e \<noteq> edge_to e" and d: "distinct (map Index es)"
    and nk: "\<forall>v. adjacent es v \<noteq> [] \<and> v \<notin> K \<longrightarrow> length (adjacent es v) = 2"
    and w: "walking es K C cur"
    and e: "e' \<in> set (left_at es C cur)"
    and u: "u = (if cur = edge_from e' then edge_to e' else edge_from e')"
  shows "walking es K (insert e' C) u"
    and "left_at es (insert e' C) u = [] \<Longrightarrow> u \<in> K \<and> between_wires es K (insert e' C)"
proof -
  let ?C' = "insert e' C"
  from e have e_es: "e' \<in> set es" and e_C: "e' \<notin> C"
    and cur: "cur = edge_from e' \<or> cur = edge_to e'" by (auto simp: set_adjacent)
  from cur u nl e_es have ucur: "u \<noteq> cur" by auto
  from cur u have u_end: "u = edge_from e' \<or> u = edge_to e'" by auto
  have e_u: "e' \<in> set (adjacent es u)" using e_es u_end by (auto simp: set_adjacent)
  have others: "whole_or_empty es ?C' v" if v: "adjacent es v \<noteq> []" "v \<notin> K" "v \<noteq> u" for v
  proof (cases "v = cur")
    case True
    with w v have "length (left_at es C cur) = 1" by (simp add: walking_def)
    with e have "left_at es C cur = [e']" by (cases "left_at es C cur") auto
    then have "left_at es ?C' cur = []" unfolding left_at_insert by simp
    with True show ?thesis by (simp add: whole_or_empty_def)
  next
    case False
    with v cur u have "v \<noteq> edge_from e'" "v \<noteq> edge_to e'" by auto
    from left_at_insert_other [OF this] have "left_at es ?C' v = left_at es C v" .
    moreover from w v False have "whole_or_empty es C v" by (simp add: walking_def)
    ultimately show ?thesis by (simp add: whole_or_empty_def)
  qed
  have one: "length (left_at es ?C' u) = 1" if uk: "u \<notin> K"
  proof -
    have au: "adjacent es u \<noteq> []" using e_u by auto
    with w uk ucur have "whole_or_empty es C u" by (simp add: walking_def)
    moreover have "e' \<in> set (left_at es C u)" using e_u e_C by simp
    then have "left_at es C u \<noteq> []" by (metis empty_iff empty_set)
    ultimately have full: "left_at es C u = adjacent es u"
      unfolding whole_or_empty_def by blast
    have "Suc (length (filter (\<lambda>y. y \<noteq> e') (adjacent es u))) = length (adjacent es u)"
      using distinct_adjacent_edges [OF nl d] e_u by (rule length_filter_neq)
    moreover have "length (adjacent es u) = 2" using nk au uk by simp
    ultimately show ?thesis unfolding left_at_insert full by simp
  qed
  show "walking es K ?C' u" using others one by (simp add: walking_def)
  show "u \<in> K \<and> between_wires es K ?C'" if "left_at es ?C' u = []"
  proof -
    from that one have uK: "u \<in> K" by auto
    with others have "between_wires es K ?C'" by (auto simp: between_wires_def)
    with uK show ?thesis by simp
  qed
qed


lemma orient_ends:
  assumes "cur = edge_from e' \<or> cur = edge_to e'"
  shows "edge_from (if cur = edge_from e' then e' else Twin e') = cur"
    and "edge_to (if cur = edge_from e' then e' else Twin e')
           = (if cur = edge_from e' then edge_to e' else edge_from e')"
  using assms by (auto simp: Twin_ends)

text \<open>
  What the inner loop does from the vertex \<open>cur\<close>: it appends a chain \<open>path\<close> of edges or
  twins of the unconsumed edges \<open>src\<close>, and stops at a knot.
\<close>

lemma walk_spec:
  assumes nl: "\<forall>e \<in> set es. edge_from e \<noteq> edge_to e" and d: "distinct (map Index es)"
    and nk: "\<forall>v. adjacent es v \<noteq> [] \<and> v \<notin> K \<longrightarrow> length (adjacent es v) = 2"
    and rem: "remaining es C vertex" and cur: "adjacent es cur \<noteq> []"
    and w: "walking es K C cur"
  shows "\<exists>vertex' vLast' path src endv.
           walk vertex (Some cur) vLast we = Inr (vertex', vLast', we @ path) \<and>
           remaining es (C \<union> set src) vertex' \<and>
           set src \<subseteq> set es \<and> set src \<inter> C = {} \<and> distinct src \<and>
           list_all2 (\<lambda>x e. x = e \<or> x = Twin e) path src \<and>
           chain cur path endv \<and> adjacent es vLast' \<noteq> [] \<and>
           between_wires es K (C \<union> set src) \<and>
           (left_at es C cur \<noteq> [] \<longrightarrow> path \<noteq> [] \<and> endv \<in> K) \<and>
           (left_at es C cur = [] \<longrightarrow> path = [])"
  using rem cur w
proof (induction "card (set es - C)" arbitrary: C vertex cur vLast we rule: less_induct)
  case less
  note rem = less.prems(1) and cur = less.prems(2) and w = less.prems(3)
  have lk: "lookup vertex cur = Inr (left_at es C cur)"
    using lookup_remaining [OF rem, of cur] cur by simp
  show ?case
  proof (cases "left_at es C cur")
    case Nil
    have "walk vertex (Some cur) vLast we = Inr (vertex, cur, we @ [])"
      by (subst walk.simps) (simp add: lk Nil del: walk.simps)
    moreover have "between_wires es K C"
    proof -
      from w Nil have "cur \<in> K" by (auto simp: walking_def)
      with w show ?thesis by (auto simp: walking_def between_wires_def)
    qed
    ultimately show ?thesis
      using rem cur Nil
      by (intro exI [of _ vertex] exI [of _ cur] exI [of _ "[]"] exI [of _ cur]) simp
  next
    case (Cons e' rest)
    then have e: "e' \<in> set (left_at es C cur)" by simp
    then have e_es: "e' \<in> set es" and e_C: "e' \<notin> C"
      and ends: "cur = edge_from e' \<or> cur = edge_to e'" by (auto simp: set_adjacent)
    define u where "u = (if cur = edge_from e' then edge_to e' else edge_from e')"
    define x where "x = (if cur = edge_from e' then e' else Twin e')"
    let ?C' = "insert e' C"
    from traverse_remaining [OF rem d e_es ends u_def, of we] obtain vertex1 where
      tr: "traverse vertex cur e' we =
             Inr (vertex1, we @ [x], if left_at es ?C' u = [] then None else Some u)" and
      rem1: "remaining es ?C' vertex1"
      unfolding x_def by blast
    have xe: "x = e' \<or> x = Twin e'" by (simp add: x_def)
    have xf: "edge_from x = cur" and xt: "edge_to x = u"
      using orient_ends [OF ends] by (simp_all add: x_def u_def)
    have au: "adjacent es u \<noteq> []"
      using e_es ends by (auto simp: u_def set_adjacent adjacent_def)
    note ws = walking_step [OF nl d nk w e u_def]
    have step: "walk vertex (Some cur) vLast we =
                  walk vertex1 (if left_at es ?C' u = [] then None else Some u) cur (we @ [x])"
      by (subst walk.simps) (simp add: lk Cons tr del: walk.simps)
    show ?thesis
    proof (cases "left_at es ?C' u = []")
      case True
      from step True have "walk vertex (Some cur) vLast we = Inr (vertex1, cur, we @ [x])"
        by simp
      moreover from ws(2) [OF True] have "u \<in> K" "between_wires es K ?C'" by simp_all
      moreover have "chain cur [x] u" using xf xt by simp
      moreover have "C \<union> set [e'] = ?C'" by simp
      ultimately show ?thesis
        using rem1 e_es e_C xe cur Cons
        by (intro exI [of _ vertex1] exI [of _ cur] exI [of _ "[x]"] exI [of _ "[e']"]
            exI [of _ u]) simp
    next
      case False
      have fin: "finite (set es - C)" by simp
      have "set es - ?C' \<subset> set es - C" using e_es e_C by auto
      then have card: "card (set es - ?C') < card (set es - C)"
        by (intro psubset_card_mono) simp_all
      from less.hyps [OF card rem1 au ws(1), of cur "we @ [x]"]
      obtain vertex' vLast' path src endv where
        r: "walk vertex1 (Some u) cur (we @ [x]) = Inr (vertex', vLast', (we @ [x]) @ path)"
           "remaining es (?C' \<union> set src) vertex'"
           "set src \<subseteq> set es" "set src \<inter> ?C' = {}" "distinct src"
           "list_all2 (\<lambda>x e. x = e \<or> x = Twin e) path src"
           "chain u path endv" "adjacent es vLast' \<noteq> []"
           "between_wires es K (?C' \<union> set src)"
           "left_at es ?C' u \<noteq> [] \<longrightarrow> path \<noteq> [] \<and> endv \<in> K"
        by blast
      have c: "C \<union> set (e' # src) = ?C' \<union> set src" by simp
      from step False r(1) have
        "walk vertex (Some cur) vLast we = Inr (vertex', vLast', we @ (x # path))" by simp
      moreover have "remaining es (C \<union> set (e' # src)) vertex'" using r(2) unfolding c .
      moreover have "set (e' # src) \<subseteq> set es" using r(3) e_es by simp
      moreover have "set (e' # src) \<inter> C = {}" using r(4) e_C by auto
      moreover have "distinct (e' # src)" using r(4,5) by auto
      moreover have "list_all2 (\<lambda>x e. x = e \<or> x = Twin e) (x # path) (e' # src)"
        using r(6) xe by simp
      moreover have "chain cur (x # path) endv" using r(7) xf xt by simp
      moreover have "between_wires es K (C \<union> set (e' # src))" using r(9) unfolding c .
      moreover have "endv \<in> K" using r(10) False by simp
      ultimately show ?thesis
        using r(8) Cons
        by (intro exI [of _ vertex'] exI [of _ vLast'] exI [of _ "x # path"]
            exI [of _ "e' # src"] exI [of _ endv]) simp
    qed
  qed
qed


lemma left_at_mono:
  assumes "left_at es C v = []" and "C \<subseteq> C'"
  shows "left_at es C' v = []"
  using assms by (auto simp: filter_empty_conv)

lemma chain_hd: "chain u w v \<Longrightarrow> w \<noteq> [] \<Longrightarrow> edge_from (hd w) = u"
  by (cases w) auto

text \<open>One round of the outer loop keeps the state in order.\<close>

lemma collect_step_spec:
  assumes nl: "\<forall>e \<in> set es. edge_from e \<noteq> edge_to e" and d: "distinct (map Index es)"
    and nk: "\<forall>v. adjacent es v \<noteq> [] \<and> v \<notin> K \<longrightarrow> length (adjacent es v) = 2"
    and keys: "\<forall>k \<in> K. adjacent es k \<noteq> []"
    and inv: "collect_inv es K vertex knots wires src"
    and ne: "knots \<noteq> []"
  shows "\<exists>vertex' knots' wires' src'.
           collect_step vertex knots wires = Inr (vertex', knots', wires') \<and>
           collect_inv es K vertex' knots' wires' src'"
proof -
  let ?C = "set src"
  obtain vFirst rest where kn: "knots = vFirst # rest" using ne by (cases knots) auto
  from inv have rem: "remaining es ?C vertex" and sub: "set knots \<subseteq> K"
    and gone: "\<forall>k \<in> K. k \<notin> set knots \<longrightarrow> left_at es ?C k = []"
    and bw: "between_wires es K ?C" and ds: "distinct src" and ss: "set src \<subseteq> set es"
    and la: "list_all2 (\<lambda>x e. x = e \<or> x = Twin e) (concat wires) src"
    and ws: "\<forall>w \<in> set wires. w \<noteq> [] \<and> edge_from (hd w) \<in> K \<and>
               (\<exists>v \<in> K. chain (edge_from (hd w)) w v)"
    by (simp_all add: collect_inv_def)
  from kn have hk: "hd knots = vFirst" by simp
  from sub kn have fK: "vFirst \<in> K" by simp
  with keys have fkey: "adjacent es vFirst \<noteq> []" by simp
  have lk: "lookup vertex vFirst = Inr (left_at es ?C vFirst)"
    using lookup_remaining [OF rem, of vFirst] fkey by simp
  show ?thesis
  proof (cases "left_at es ?C vFirst = []")
    case True
    let ?k' = "filter (\<lambda>v. v \<noteq> vFirst) (filter (\<lambda>v. v \<noteq> vFirst) knots)"
    have "collect_step vertex knots wires = Inr (vertex, ?k', wires)"
      by (simp add: collect_step_def hk lk True Let_def del: walk.simps)
    moreover have "collect_inv es K vertex ?k' wires src"
      using inv True by (auto simp: collect_inv_def)
    ultimately show ?thesis by blast
  next
    case False
    have wk: "walking es K ?C vFirst"
      using bw fK by (simp add: walking_def between_wires_def)
    from walk_spec [OF nl d nk rem fkey wk, of vFirst "[]"]
    obtain vertex' vLast' path srcw endv where
      r: "walk vertex (Some vFirst) vFirst [] = Inr (vertex', vLast', [] @ path)"
         "remaining es (?C \<union> set srcw) vertex'"
         "set srcw \<subseteq> set es" "set srcw \<inter> ?C = {}" "distinct srcw"
         "list_all2 (\<lambda>x e. x = e \<or> x = Twin e) path srcw"
         "chain vFirst path endv" "adjacent es vLast' \<noteq> []"
         "between_wires es K (?C \<union> set srcw)"
         "left_at es ?C vFirst \<noteq> [] \<longrightarrow> path \<noteq> [] \<and> endv \<in> K"
      by blast
    let ?src' = "src @ srcw"
    let ?C' = "set ?src'"
    have C': "?C' = ?C \<union> set srcw" by simp
    from r(10) False have pne: "path \<noteq> []" and eK: "endv \<in> K" by simp_all
    have lkF: "lookup vertex' vFirst = Inr (left_at es ?C' vFirst)"
      using lookup_remaining [OF r(2), of vFirst] fkey by simp
    have lkL: "lookup vertex' vLast' = Inr (left_at es ?C' vLast')"
      using lookup_remaining [OF r(2), of vLast'] r(8) by simp
    define knots1 where
      "knots1 = (if left_at es ?C' vFirst = [] then filter (\<lambda>v. v \<noteq> vFirst) knots else knots)"
    define knots2 where
      "knots2 = (if left_at es ?C' vLast' = [] then filter (\<lambda>v. v \<noteq> vLast') knots1 else knots1)"
    have nonempty: "0 < length (left_at es ?C vFirst)" using False by simp
    have step: "collect_step vertex knots wires = Inr (vertex', knots2, wires @ [path])"
      using r(1) nonempty
      by (simp add: collect_step_def hk lk lkF lkL Let_def knots1_def knots2_def
          del: walk.simps)
    have sub2: "set knots2 \<subseteq> K" using sub by (auto simp: knots1_def knots2_def)
    have gone2: "left_at es ?C' k = []" if "k \<in> K" "k \<notin> set knots2" for k
    proof (cases "k \<in> set knots")
      case False
      with gone that have "left_at es ?C k = []" by simp
      then show ?thesis by (rule left_at_mono) auto
    next
      case True
      with that(2) show ?thesis
        by (auto simp: knots1_def knots2_def split: if_splits)
    qed
    have "collect_inv es K vertex' knots2 (wires @ [path]) ?src'"
      unfolding collect_inv_def
    proof (intro conjI)
      show "remaining es ?C' vertex'" using r(2) by simp
      show "set knots2 \<subseteq> K" by (rule sub2)
      show "\<forall>k \<in> K. k \<notin> set knots2 \<longrightarrow> left_at es ?C' k = []" using gone2 by blast
      show "between_wires es K ?C'" using r(9) by simp
      show "distinct ?src'" using ds r(4,5) by auto
      show "?C' \<subseteq> set es" using ss r(3) by simp
      show "list_all2 (\<lambda>x e. x = e \<or> x = Twin e) (concat (wires @ [path])) ?src'"
        using la r(6) by (simp add: list_all2_appendI)
      show "\<forall>w \<in> set (wires @ [path]). w \<noteq> [] \<and> edge_from (hd w) \<in> K \<and>
               (\<exists>v \<in> K. chain (edge_from (hd w)) w v)"
        using ws pne eK fK r(7) chain_hd [OF r(7) pne] by auto
    qed
    with step show ?thesis by blast
  qed
qed


lemma collect_loop_spec:
  assumes nl: "\<forall>e \<in> set es. edge_from e \<noteq> edge_to e" and d: "distinct (map Index es)"
    and nk: "\<forall>v. adjacent es v \<noteq> [] \<and> v \<notin> K \<longrightarrow> length (adjacent es v) = 2"
    and keys: "\<forall>k \<in> K. adjacent es k \<noteq> []"
    and inv: "collect_inv es K vertex knots wires src"
  shows "\<exists>vertex' wires' src'.
           collect_loop vertex knots wires = Inr wires' \<and>
           collect_inv es K vertex' [] wires' src'"
  using inv
proof (induction vertex knots wires arbitrary: src rule: collect_loop.induct)
  case (1 vertex knots wires)
  show ?case
  proof (cases "knots = []")
    case True
    with "1.prems" show ?thesis by (subst collect_loop.simps) auto
  next
    case False
    from collect_step_spec [OF nl d nk keys "1.prems" False]
    obtain vertex' knots' wires' src' where
      st: "collect_step vertex knots wires = Inr (vertex', knots', wires')" and
      inv': "collect_inv es K vertex' knots' wires' src'" by blast
    from "1.IH" [OF False st refl refl inv'] obtain vertex'' wires'' src'' where
      "collect_loop vertex' knots' wires' = Inr wires''"
      "collect_inv es K vertex'' [] wires'' src''" by blast
    moreover have "collect_loop vertex knots wires = collect_loop vertex' knots' wires'"
      by (subst collect_loop.simps) (simp add: False st del: collect_loop.simps)
    ultimately show ?thesis by auto
  qed
qed

text \<open>The dictionary and the knots at the start of the loop.\<close>

lemma distinct_keys_add_edge:
  "distinct (map fst vertex) \<Longrightarrow> distinct (map fst (add_edge vertex i e))"
  by (simp add: add_edge_def Let_def distinct_update)

lemma distinct_keys_build_vertex:
  "distinct (map fst vertex) \<Longrightarrow> distinct (map fst (build_vertex es vertex))"
  by (induction es arbitrary: vertex) (simp_all add: distinct_keys_add_edge)

lemma build_vertex_entry:
  "(v, l) \<in> set (build_vertex es []) \<longleftrightarrow> adjacent es v \<noteq> [] \<and> l = adjacent es v"
proof -
  have dk: "distinct (map fst (build_vertex es []))"
    by (rule distinct_keys_build_vertex) simp
  have "(v, l) \<in> set (build_vertex es []) \<longleftrightarrow> map_of (build_vertex es []) v = Some l"
    using dk by (auto intro: map_of_is_SomeI dest: map_of_SomeD)
  then show ?thesis by (auto simp: map_of_build_vertex)
qed

lemma initial_knots_eq:
  "initial_knots vx =
     (if map fst (filter (\<lambda>(i, l). length l = 1) vx) @
         map fst (filter (\<lambda>(i, l). length l > 2) vx) = []
      then (case filter (\<lambda>(i, l). length l > 0) vx of [] \<Rightarrow> [] | (i, l) # _ \<Rightarrow> [i])
      else map fst (filter (\<lambda>(i, l). length l = 1) vx) @
           map fst (filter (\<lambda>(i, l). length l > 2) vx))"
  unfolding initial_knots_def Let_def by (auto split: list.splits)

lemma initial_knots_cases:
  assumes "k \<in> set (initial_knots vx)"
  shows "(\<exists>l. (k, l) \<in> set vx \<and> (length l = 1 \<or> length l > 2)) \<or>
         ((\<forall>(i, l) \<in> set vx. length l \<noteq> 1 \<and> \<not> length l > 2) \<and>
          (\<exists>l. (k, l) \<in> set vx) \<and> initial_knots vx = [k])"
proof (cases "map fst (filter (\<lambda>(i, l). length l = 1) vx) @
              map fst (filter (\<lambda>(i, l). length l > 2) vx) = []")
  case False
  have "initial_knots vx = map fst (filter (\<lambda>(i, l). length l = 1) vx) @
                                map fst (filter (\<lambda>(i, l). length l > 2) vx)"
    by (subst initial_knots_eq, subst if_not_P [OF False], rule refl)
  with assms have "k \<in> set (map fst (filter (\<lambda>(i, l). length l = 1) vx)) \<or>
                   k \<in> set (map fst (filter (\<lambda>(i, l). length l > 2) vx))" by simp
  then show ?thesis by auto
next
  case True
  have eq: "initial_knots vx =
                   (case filter (\<lambda>(i, l). length l > 0) vx of [] \<Rightarrow> [] | (i, l) # _ \<Rightarrow> [i])"
    by (subst initial_knots_eq, subst if_P [OF True], rule refl)
  from True have a: "filter (\<lambda>(i, l). length l = 1) vx = []"
    and b: "filter (\<lambda>(i, l). length l > 2) vx = []" by simp_all
  have none: "\<forall>(i, l) \<in> set vx. length l \<noteq> 1 \<and> \<not> length l > 2"
    using a b unfolding filter_empty_conv by blast
  show ?thesis
  proof (cases "filter (\<lambda>(i, l). length l > 0) vx")
    case Nil
    with eq assms show ?thesis by simp
  next
    case (Cons p ps)
    obtain i l where p: "p = (i, l)" by (cases p)
    from Cons p eq have k1: "initial_knots vx = [i]" by simp
    with assms have ki: "k = i" by simp
    have "(i, l) \<in> set (filter (\<lambda>(i, l). length l > 0) vx)" using Cons p by simp
    then have "(i, l) \<in> set vx" by simp
    with none k1 ki show ?thesis by blast
  qed
qed

lemma initial_knots_contains:
  assumes "(v, l) \<in> set vx" and "length l = 1 \<or> length l > 2"
  shows "v \<in> set (initial_knots vx)"
proof -
  from assms have m: "v \<in> set (map fst (filter (\<lambda>(i, l). length l = 1) vx) @
                              map fst (filter (\<lambda>(i, l). length l > 2) vx))" by force
  then have ne: "map fst (filter (\<lambda>(i, l). length l = 1) vx) @
             map fst (filter (\<lambda>(i, l). length l > 2) vx) \<noteq> []"
    by (metis length_greater_0_conv length_pos_if_in_set)
  have "initial_knots vx = map fst (filter (\<lambda>(i, l). length l = 1) vx) @
                                map fst (filter (\<lambda>(i, l). length l > 2) vx)"
    by (subst initial_knots_eq, subst if_not_P [OF ne], rule refl)
  with m show ?thesis by simp
qed

lemma initial_knots_keys:
  assumes "k \<in> set (initial_knots (build_vertex es []))"
  shows "adjacent es k \<noteq> []"
proof -
  from initial_knots_cases [OF assms] obtain l where "(k, l) \<in> set (build_vertex es [])"
    by blast
  then show ?thesis by (simp add: build_vertex_entry)
qed

lemma initial_knots_others:
  assumes "adjacent es v \<noteq> []" and "v \<notin> set (initial_knots (build_vertex es []))"
  shows "length (adjacent es v) = 2"
proof -
  let ?vx = "build_vertex es []"
  from assms(1) have en: "(v, adjacent es v) \<in> set ?vx" by (simp add: build_vertex_entry)
  from initial_knots_contains [OF en] assms(2)
  have "\<not> (length (adjacent es v) = 1 \<or> length (adjacent es v) > 2)" by blast
  moreover have "length (adjacent es v) \<noteq> 0" using assms(1) by simp
  ultimately show ?thesis by linarith
qed

lemma initial_knots_degree:
  assumes "k \<in> set (initial_knots (build_vertex es []))"
  shows "length (adjacent es k) = 1 \<or> length (adjacent es k) > 2 \<or>
         ((\<forall>v. adjacent es v \<noteq> [] \<longrightarrow> length (adjacent es v) = 2) \<and>
          initial_knots (build_vertex es []) = [k])"
proof -
  let ?vx = "build_vertex es []"
  from initial_knots_cases [OF assms] show ?thesis
  proof
    assume "\<exists>l. (k, l) \<in> set ?vx \<and> (length l = 1 \<or> length l > 2)"
    then show ?thesis by (auto simp: build_vertex_entry)
  next
    assume a: "(\<forall>(i, l) \<in> set ?vx. length l \<noteq> 1 \<and> \<not> length l > 2) \<and>
          (\<exists>l. (k, l) \<in> set ?vx) \<and> initial_knots ?vx = [k]"
    have "length (adjacent es v) = 2" if "adjacent es v \<noteq> []" for v
    proof -
      from that have "(v, adjacent es v) \<in> set ?vx" by (simp add: build_vertex_entry)
      with a have "length (adjacent es v) \<noteq> 1 \<and> \<not> length (adjacent es v) > 2" by blast
      moreover have "length (adjacent es v) \<noteq> 0" using that by simp
      ultimately show ?thesis by linarith
    qed
    with a show ?thesis by blast
  qed
qed

lemma collect_inv_initial:
  "collect_inv es (set (initial_knots (build_vertex es []))) (build_vertex es [])
     (initial_knots (build_vertex es [])) [] []"
  by (simp add: collect_inv_def remaining_build_vertex between_wires_def whole_or_empty_def)


lemma collectVoronoiWires_spec:
  assumes "\<forall>e \<in> set (primary_edges vd). edge_from e \<noteq> edge_to e"
    and "distinct (map Index (primary_edges vd))"
  shows "\<exists>vertex' wires src.
           collectVoronoiWires vd = Inr wires \<and>
           collect_inv (primary_edges vd) (set (diagram_knots vd)) vertex' [] wires src"
proof -
  let ?es = "primary_edges vd"
  let ?K = "set (initial_knots (build_vertex ?es []))"
  have nk: "\<forall>v. adjacent ?es v \<noteq> [] \<and> v \<notin> ?K \<longrightarrow> length (adjacent ?es v) = 2"
    using initial_knots_others by blast
  have keys: "\<forall>k \<in> ?K. adjacent ?es k \<noteq> []" using initial_knots_keys by blast
  from collect_loop_spec [OF assms nk keys collect_inv_initial]
  show ?thesis
    by (simp add: collectVoronoiWires_def diagram_knots_def primary_edges_def Let_def
        del: collect_loop.simps)
qed

lemma chain_last: "chain u w v \<Longrightarrow> w \<noteq> [] \<Longrightarrow> edge_to (last w) = v"
  by (induction w arbitrary: u) auto

lemma chain_consecutive:
  "chain u w v \<Longrightarrow> Suc i < length w \<Longrightarrow> edge_to (w ! i) = edge_from (w ! Suc i)"
proof (induction w arbitrary: u i)
  case Nil
  then show ?case by simp
next
  case (Cons x w)
  show ?case
  proof (cases i)
    case 0
    with Cons.prems show ?thesis by (cases w) auto
  next
    case (Suc j)
    with Cons.prems have "chain (edge_to x) w v" "Suc j < length w" by simp_all
    from Cons.IH [OF this] Suc show ?thesis by simp
  qed
qed

lemma list_all2_member:
  "list_all2 P xs ys \<Longrightarrow> x \<in> set xs \<Longrightarrow> \<exists>y \<in> set ys. P x y"
  by (induction rule: list_all2_induct) auto

text \<open>
  Claim C8. For a diagram whose \<^verbatim>\<open>PRIMARY\<close> edges have different indices and join two
  different vertices each, \<^verbatim>\<open>_collectVoronoiWires\<close> returns, and every wire it returns
  is a non-empty chain: each edge goes to the vertex the next edge starts from, every
  entry being a \<^verbatim>\<open>PRIMARY\<close> edge or, where the walk went against the stored direction,
  its twin. Every wire starts from a knot and ends at a knot. A knot is a vertex with one
  edge or with more than two; when the diagram has no such vertex, every vertex has two
  edges and the only knot is the one vertex chosen.
\<close>
theorem collectVoronoiWires_chains:
  assumes "distinct (map Index (primary_edges vd))"
    and "\<forall>e \<in> set (primary_edges vd). edge_from e \<noteq> edge_to e"
  shows "\<exists>wires.
           collectVoronoiWires vd = Inr wires \<and>
           (\<forall>w \<in> set wires.
              w \<noteq> [] \<and>
              (\<forall>i. Suc i < length w \<longrightarrow> edge_to (w ! i) = edge_from (w ! Suc i)) \<and>
              (\<forall>x \<in> set w. \<exists>e \<in> set (primary_edges vd). x = e \<or> x = Twin e) \<and>
              edge_from (hd w) \<in> set (diagram_knots vd) \<and>
              edge_to (last w) \<in> set (diagram_knots vd)) \<and>
           (\<forall>k \<in> set (diagram_knots vd).
              length (adjacent (primary_edges vd) k) = 1 \<or>
              length (adjacent (primary_edges vd) k) > 2 \<or>
              ((\<forall>v. adjacent (primary_edges vd) v \<noteq> [] \<longrightarrow>
                    length (adjacent (primary_edges vd) v) = 2) \<and>
               diagram_knots vd = [k]))"
proof -
  let ?es = "primary_edges vd" and ?K = "set (diagram_knots vd)"
  from collectVoronoiWires_spec [OF assms(2,1)] obtain vertex' wires src where
    run: "collectVoronoiWires vd = Inr wires" and
    inv: "collect_inv ?es ?K vertex' [] wires src" by blast
  from inv have ss: "set src \<subseteq> set ?es"
    and la: "list_all2 (\<lambda>x e. x = e \<or> x = Twin e) (concat wires) src"
    and ws: "\<forall>w \<in> set wires. w \<noteq> [] \<and> edge_from (hd w) \<in> ?K \<and>
               (\<exists>v \<in> ?K. chain (edge_from (hd w)) w v)"
    by (simp_all add: collect_inv_def)
  have wire: "w \<noteq> [] \<and>
              (\<forall>i. Suc i < length w \<longrightarrow> edge_to (w ! i) = edge_from (w ! Suc i)) \<and>
              (\<forall>x \<in> set w. \<exists>e \<in> set ?es. x = e \<or> x = Twin e) \<and>
              edge_from (hd w) \<in> ?K \<and> edge_to (last w) \<in> ?K" if w: "w \<in> set wires" for w
  proof -
    from ws w obtain v where ne: "w \<noteq> []" and b: "edge_from (hd w) \<in> ?K" and v: "v \<in> ?K"
      and ch: "chain (edge_from (hd w)) w v" by blast
    have "\<exists>e \<in> set ?es. x = e \<or> x = Twin e" if "x \<in> set w" for x
    proof -
      from that w have "x \<in> set (concat wires)" by auto
      from list_all2_member [OF la this] ss show ?thesis by blast
    qed
    with ne b v chain_last [OF ch ne] chain_consecutive [OF ch] show ?thesis by simp
  qed
  have "length (adjacent ?es k) = 1 \<or> length (adjacent ?es k) > 2 \<or>
        ((\<forall>v. adjacent ?es v \<noteq> [] \<longrightarrow> length (adjacent ?es v) = 2) \<and> diagram_knots vd = [k])"
    if "k \<in> ?K" for k
    using initial_knots_degree [of k ?es] that by (simp add: diagram_knots_def)
  with run wire show ?thesis by blast
qed


theorem collectVoronoiWires_chains_witness:
  "distinct (map Index (primary_edges (Diagram
     [Edge 0 PRIMARY (Vertex 1 0 0, Vertex 2 1 0) (0, 0) 1 TWIN,
      Edge 2 PRIMARY (Vertex 3 2 0, Vertex 2 1 0) (0, 0) 3 TWIN]))) \<and>
   collectVoronoiWires (Diagram
     [Edge 0 PRIMARY (Vertex 1 0 0, Vertex 2 1 0) (0, 0) 1 TWIN,
      Edge 2 PRIMARY (Vertex 3 2 0, Vertex 2 1 0) (0, 0) 3 TWIN])
   = Inr [[Edge 0 PRIMARY (Vertex 1 0 0, Vertex 2 1 0) (0, 0) 1 TWIN,
           Edge 3 TWIN (Vertex 2 1 0, Vertex 3 2 0) (0, 0) 2 PRIMARY]] \<and>
   edge_to (Edge 0 PRIMARY (Vertex 1 0 0, Vertex 2 1 0) (0, 0) 1 TWIN)
     = edge_from (Edge 3 TWIN (Vertex 2 1 0, Vertex 3 2 0) (0, 0) 2 PRIMARY) \<and>
   diagram_knots (Diagram
     [Edge 0 PRIMARY (Vertex 1 0 0, Vertex 2 1 0) (0, 0) 1 TWIN,
      Edge 2 PRIMARY (Vertex 3 2 0, Vertex 2 1 0) (0, 0) 3 TWIN]) = [1, 3]"
proof -
  let ?vd = "Diagram
     [Edge 0 PRIMARY (Vertex 1 0 0, Vertex 2 1 0) (0, 0) 1 TWIN,
      Edge 2 PRIMARY (Vertex 3 2 0, Vertex 2 1 0) (0, 0) 3 TWIN]"
  have p: "primary_edges ?vd =
     [Edge 0 PRIMARY (Vertex 1 0 0, Vertex 2 1 0) (0, 0) 1 TWIN,
      Edge 2 PRIMARY (Vertex 3 2 0, Vertex 2 1 0) (0, 0) 3 TWIN]"
    by (simp add: primary_edges_def)
  have d: "distinct (map Index (primary_edges ?vd))" unfolding p by simp
  have nl: "\<forall>e \<in> set (primary_edges ?vd). edge_from e \<noteq> edge_to e"
    unfolding p by (simp add: edge_from_def edge_to_def)
  have k: "diagram_knots ?vd = [1, 3]"
    unfolding diagram_knots_def p by (simp add: add_edge_def initial_knots_def)
  from collectVoronoiWires_chains [OF d nl] obtain wires where
    w: "collectVoronoiWires ?vd = Inr wires" by blast
  have "collectVoronoiWires ?vd
   = Inr [[Edge 0 PRIMARY (Vertex 1 0 0, Vertex 2 1 0) (0, 0) 1 TWIN,
           Edge 3 TWIN (Vertex 2 1 0, Vertex 3 2 0) (0, 0) 2 PRIMARY]]"
    by (simp add: collectVoronoiWires_def build_vertex.simps add_edge_def initial_knots_def
      collect_step_def lookup_def traverse_def consume_def Twin_def Let_def PRIMARY_def TWIN_def)
  with d k w show ?thesis by (simp add: edge_from_def edge_to_def)
qed

lemma undirected_Twin: "undirected (Twin e) = undirected e"
  by (auto simp: undirected_def Twin_Twin)

lemma list_all2_undirected:
  "list_all2 (\<lambda>x e. x = e \<or> x = Twin e) xs ys \<Longrightarrow> map undirected xs = map undirected ys"
  by (induction rule: list_all2_induct) (auto simp: undirected_Twin)

lemma inj_on_undirected:
  assumes "\<forall>e \<in> A. Twin e \<notin> A"
  shows "inj_on undirected A"
proof (rule inj_onI)
  fix a b
  assume a: "a \<in> A" and b: "b \<in> A" and eq: "undirected a = undirected b"
  from eq have "a \<in> {b, Twin b}" by (auto simp: undirected_def)
  with a b assms show "a = b" by auto
qed

text \<open>
  Claim C1, amended. Let the \<^verbatim>\<open>PRIMARY\<close> edges of a diagram have different indices and
  join two different vertices each, let the twin of a \<^verbatim>\<open>PRIMARY\<close> edge not be among
  the \<^verbatim>\<open>PRIMARY\<close> edges (one half-edge of each pair is coloured \<^verbatim>\<open>PRIMARY\<close>, as after
  \<^verbatim>\<open>colorTwins\<close>), and let every connected part of the graph hold a knot: every
  non-empty set of vertices with edges that has both ends of an edge whenever it has
  one. Then the wires returned consist of \<^verbatim>\<open>PRIMARY\<close> edges and twins of them, no
  undirected edge occurs twice in all the wires together, the undirected edges of the
  wires are exactly those of the \<^verbatim>\<open>PRIMARY\<close> edges, and so every undirected \<^verbatim>\<open>PRIMARY\<close>
  edge occurs exactly once.
\<close>
theorem collectVoronoiWires_partition:
  assumes d: "distinct (map Index (primary_edges vd))"
    and nl: "\<forall>e \<in> set (primary_edges vd). edge_from e \<noteq> edge_to e"
    and tw: "\<forall>e \<in> set (primary_edges vd). Twin e \<notin> set (primary_edges vd)"
    and conn: "\<forall>U. U \<noteq> {} \<and> (\<forall>v \<in> U. adjacent (primary_edges vd) v \<noteq> []) \<and>
                 (\<forall>e \<in> set (primary_edges vd). edge_from e \<in> U \<longleftrightarrow> edge_to e \<in> U) \<longrightarrow>
                 (\<exists>k \<in> set (diagram_knots vd). k \<in> U)"
  shows "\<exists>wires.
           collectVoronoiWires vd = Inr wires \<and>
           (\<forall>x \<in> set (concat wires). \<exists>e \<in> set (primary_edges vd). x = e \<or> x = Twin e) \<and>
           distinct (map undirected (concat wires)) \<and>
           set (map undirected (concat wires)) = undirected ` set (primary_edges vd) \<and>
           (\<forall>e \<in> set (primary_edges vd).
              count (mset (map undirected (concat wires))) (undirected e) = 1)"
proof -
  let ?es = "primary_edges vd" and ?K = "set (diagram_knots vd)"
  from collectVoronoiWires_spec [OF nl d] obtain vertex' wires src where
    run: "collectVoronoiWires vd = Inr wires" and
    inv: "collect_inv ?es ?K vertex' [] wires src" by blast
  let ?C = "set src"
  from inv have gone: "\<forall>k \<in> ?K. left_at ?es ?C k = []"
    and bw: "between_wires ?es ?K ?C" and ds: "distinct src" and ss: "?C \<subseteq> set ?es"
    and la: "list_all2 (\<lambda>x e. x = e \<or> x = Twin e) (concat wires) src"
    by (simp_all add: collect_inv_def)
  have all: "set ?es \<subseteq> ?C"
  proof (rule ccontr)
    assume "\<not> set ?es \<subseteq> ?C"
    then obtain e0 where e0: "e0 \<in> set ?es" "e0 \<notin> ?C" by blast
    define U where "U = {v. left_at ?es ?C v \<noteq> []}"
    have inU: "edge_from e \<in> U" "edge_to e \<in> U" if "e \<in> set ?es" "e \<notin> ?C" for e
    proof -
      from that have "e \<in> set (left_at ?es ?C (edge_from e))"
        and "e \<in> set (left_at ?es ?C (edge_to e))" by (simp_all add: set_adjacent)
      then show "edge_from e \<in> U" "edge_to e \<in> U"
        unfolding U_def by (metis (mono_tags, lifting) empty_iff empty_set mem_Collect_eq)+
    qed
    have whole: "e \<notin> ?C" if "v \<in> U" "e \<in> set ?es" "v = edge_from e \<or> v = edge_to e" for v e
    proof -
      from that(1) have ne: "left_at ?es ?C v \<noteq> []" by (simp add: U_def)
      then have av: "adjacent ?es v \<noteq> []" by auto
      have "v \<notin> ?K" using gone ne by blast
      with bw av have "whole_or_empty ?es ?C v" by (simp add: between_wires_def)
      with ne have "left_at ?es ?C v = adjacent ?es v" by (simp add: whole_or_empty_def)
      then have "\<forall>x \<in> set (adjacent ?es v). x \<notin> ?C" by (simp add: filter_id_conv)
      moreover have "e \<in> set (adjacent ?es v)" using that(2,3) by (simp add: set_adjacent)
      ultimately show ?thesis by blast
    qed
    have "U \<noteq> {}" using inU(1) [OF e0] by blast
    moreover have "\<forall>v \<in> U. adjacent ?es v \<noteq> []" by (auto simp: U_def)
    moreover have "\<forall>e \<in> set ?es. edge_from e \<in> U \<longleftrightarrow> edge_to e \<in> U"
      using whole inU by blast
    ultimately obtain k where "k \<in> ?K" "k \<in> U" using conn by blast
    with gone show False by (simp add: U_def)
  qed
  with ss have C: "?C = set ?es" by blast
  have m: "map undirected (concat wires) = map undirected src"
    by (rule list_all2_undirected [OF la])
  have "inj_on undirected ?C" unfolding C by (rule inj_on_undirected [OF tw])
  with ds have dist: "distinct (map undirected (concat wires))"
    unfolding m by (simp add: distinct_map)
  have st: "set (map undirected (concat wires)) = undirected ` set ?es"
    unfolding m using C by simp
  have members: "\<exists>e \<in> set ?es. x = e \<or> x = Twin e" if "x \<in> set (concat wires)" for x
    using list_all2_member [OF la that] ss by blast
  have "count (mset (map undirected (concat wires))) (undirected e) = 1" if "e \<in> set ?es" for e
  proof -
    from that st have "undirected e \<in> set (map undirected (concat wires))" by blast
    with dist show ?thesis by (simp add: distinct_count_atmost_1)
  qed
  with run members dist st show ?thesis by blast
qed


theorem collectVoronoiWires_partition_witness:
  "distinct (map Index (primary_edges (Diagram
     [Edge 0 PRIMARY (Vertex 1 0 0, Vertex 2 1 0) (0, 0) 1 TWIN,
      Edge 2 PRIMARY (Vertex 3 2 0, Vertex 2 1 0) (0, 0) 3 TWIN]))) \<and>
   Twin (Edge 0 PRIMARY (Vertex 1 0 0, Vertex 2 1 0) (0, 0) 1 TWIN)
     \<notin> set (primary_edges (Diagram
     [Edge 0 PRIMARY (Vertex 1 0 0, Vertex 2 1 0) (0, 0) 1 TWIN,
      Edge 2 PRIMARY (Vertex 3 2 0, Vertex 2 1 0) (0, 0) 3 TWIN])) \<and>
   collectVoronoiWires (Diagram
     [Edge 0 PRIMARY (Vertex 1 0 0, Vertex 2 1 0) (0, 0) 1 TWIN,
      Edge 2 PRIMARY (Vertex 3 2 0, Vertex 2 1 0) (0, 0) 3 TWIN])
   = Inr [[Edge 0 PRIMARY (Vertex 1 0 0, Vertex 2 1 0) (0, 0) 1 TWIN,
           Edge 3 TWIN (Vertex 2 1 0, Vertex 3 2 0) (0, 0) 2 PRIMARY]] \<and>
   count (mset (map undirected (concat
          [[Edge 0 PRIMARY (Vertex 1 0 0, Vertex 2 1 0) (0, 0) 1 TWIN,
            Edge 3 TWIN (Vertex 2 1 0, Vertex 3 2 0) (0, 0) 2 PRIMARY]])))
     (undirected (Edge 2 PRIMARY (Vertex 3 2 0, Vertex 2 1 0) (0, 0) 3 TWIN)) = 1"
proof -
  let ?e0 = "Edge 0 PRIMARY (Vertex 1 0 0, Vertex 2 1 0) (0, 0) 1 TWIN"
  let ?e2 = "Edge 2 PRIMARY (Vertex 3 2 0, Vertex 2 1 0) (0, 0) 3 TWIN"
  let ?vd = "Diagram [?e0, ?e2]"
  have p: "primary_edges ?vd = [?e0, ?e2]" by (simp add: primary_edges_def)
  have d: "distinct (map Index (primary_edges ?vd))" unfolding p by simp
  have nl: "\<forall>e \<in> set (primary_edges ?vd). edge_from e \<noteq> edge_to e"
    unfolding p by (simp add: edge_from_def edge_to_def)
  have tw: "\<forall>e \<in> set (primary_edges ?vd). Twin e \<notin> set (primary_edges ?vd)"
    unfolding p by (simp add: Twin_def)
  have k: "diagram_knots ?vd = [1, 3]"
    unfolding diagram_knots_def p by (simp add: add_edge_def initial_knots_def)
  have conn: "\<forall>U. U \<noteq> {} \<and> (\<forall>v \<in> U. adjacent (primary_edges ?vd) v \<noteq> []) \<and>
                 (\<forall>e \<in> set (primary_edges ?vd). edge_from e \<in> U \<longleftrightarrow> edge_to e \<in> U) \<longrightarrow>
                 (\<exists>k \<in> set (diagram_knots ?vd). k \<in> U)"
  proof (intro allI impI)
    fix U :: "nat set"
    assume a: "U \<noteq> {} \<and> (\<forall>v \<in> U. adjacent (primary_edges ?vd) v \<noteq> []) \<and>
                 (\<forall>e \<in> set (primary_edges ?vd). edge_from e \<in> U \<longleftrightarrow> edge_to e \<in> U)"
    then obtain v where v: "v \<in> U" by blast
    with a have "adjacent [?e0, ?e2] v \<noteq> []" unfolding p by blast
    then have v123: "v = 1 \<or> v = 2 \<or> v = 3"
      by (auto simp: adjacent_def edge_from_def edge_to_def split: if_splits)
    from a have "(1 \<in> U \<longleftrightarrow> 2 \<in> U) \<and> (3 \<in> U \<longleftrightarrow> 2 \<in> U)"
      unfolding p by (simp add: edge_from_def edge_to_def)
    with v v123 have "1 \<in> U" by auto
    then show "\<exists>k \<in> set (diagram_knots ?vd). k \<in> U" unfolding k by simp
  qed
  from collectVoronoiWires_partition [OF d nl tw conn] obtain wires where
    w: "collectVoronoiWires ?vd = Inr wires"
       "\<forall>e \<in> set (primary_edges ?vd).
              count (mset (map undirected (concat wires))) (undirected e) = 1" by blast
  have ev: "collectVoronoiWires ?vd
    = Inr [[?e0, Edge 3 TWIN (Vertex 2 1 0, Vertex 3 2 0) (0, 0) 2 PRIMARY]]"
    by (simp add: collectVoronoiWires_def build_vertex.simps add_edge_def initial_knots_def
      collect_step_def lookup_def traverse_def consume_def Twin_def Let_def PRIMARY_def TWIN_def)
  with w(1) have "wires = [[?e0, Edge 3 TWIN (Vertex 2 1 0, Vertex 3 2 0) (0, 0) 2 PRIMARY]]"
    by simp
  with w(2) have "count (mset (map undirected (concat
          [[?e0, Edge 3 TWIN (Vertex 2 1 0, Vertex 3 2 0) (0, 0) 2 PRIMARY]])))
     (undirected ?e2) = 1" unfolding p by simp
  moreover have "Twin ?e0 \<notin> set (primary_edges ?vd)" unfolding p by (simp add: Twin_def)
  ultimately show ?thesis using d ev by blast
qed

text \<open>
  Claim C1, as stated, fails. When both half-edges of a pair are coloured \<^verbatim>\<open>PRIMARY\<close>,
  so that the one \<^verbatim>\<open>PRIMARY\<close> edge has its one \<^verbatim>\<open>PRIMARY\<close> twin, both are entered at
  both vertices and the single wire runs along the edge and back: the undirected edge
  occurs twice. And with one half-edge of each pair coloured \<^verbatim>\<open>PRIMARY\<close>, a diagram of
  one edge between the vertices 1 and 2 and a separate triangle on the vertices 3, 4 and
  5 has the knots 1 and 2 only, and no wire holds an edge of the triangle.
\<close>
theorem collectVoronoiWires_partition_counterexample:
  "primary_edges (Diagram
     [Edge 0 PRIMARY (Vertex 1 0 0, Vertex 2 1 0) (0, 0) 1 PRIMARY,
      Edge 1 PRIMARY (Vertex 2 1 0, Vertex 1 0 0) (0, 0) 0 PRIMARY])
   = [Edge 0 PRIMARY (Vertex 1 0 0, Vertex 2 1 0) (0, 0) 1 PRIMARY,
      Edge 1 PRIMARY (Vertex 2 1 0, Vertex 1 0 0) (0, 0) 0 PRIMARY] \<and>
   Twin (Edge 0 PRIMARY (Vertex 1 0 0, Vertex 2 1 0) (0, 0) 1 PRIMARY)
   = Edge 1 PRIMARY (Vertex 2 1 0, Vertex 1 0 0) (0, 0) 0 PRIMARY \<and>
   Twin (Edge 1 PRIMARY (Vertex 2 1 0, Vertex 1 0 0) (0, 0) 0 PRIMARY)
   = Edge 0 PRIMARY (Vertex 1 0 0, Vertex 2 1 0) (0, 0) 1 PRIMARY \<and>
   collectVoronoiWires (Diagram
     [Edge 0 PRIMARY (Vertex 1 0 0, Vertex 2 1 0) (0, 0) 1 PRIMARY,
      Edge 1 PRIMARY (Vertex 2 1 0, Vertex 1 0 0) (0, 0) 0 PRIMARY])
   = Inr [[Edge 0 PRIMARY (Vertex 1 0 0, Vertex 2 1 0) (0, 0) 1 PRIMARY,
           Edge 1 PRIMARY (Vertex 2 1 0, Vertex 1 0 0) (0, 0) 0 PRIMARY]] \<and>
   count (mset (map undirected (concat
           [[Edge 0 PRIMARY (Vertex 1 0 0, Vertex 2 1 0) (0, 0) 1 PRIMARY,
             Edge 1 PRIMARY (Vertex 2 1 0, Vertex 1 0 0) (0, 0) 0 PRIMARY]])))
     (undirected (Edge 0 PRIMARY (Vertex 1 0 0, Vertex 2 1 0) (0, 0) 1 PRIMARY)) = 2 \<and>
   collectVoronoiWires (Diagram
     [Edge 0 PRIMARY (Vertex 1 0 0, Vertex 2 1 0) (0, 0) 1 TWIN,
      Edge 2 PRIMARY (Vertex 3 5 0, Vertex 4 6 0) (0, 0) 3 TWIN,
      Edge 4 PRIMARY (Vertex 4 6 0, Vertex 5 6 1) (0, 0) 5 TWIN,
      Edge 6 PRIMARY (Vertex 5 6 1, Vertex 3 5 0) (0, 0) 7 TWIN])
   = Inr [[Edge 0 PRIMARY (Vertex 1 0 0, Vertex 2 1 0) (0, 0) 1 TWIN]] \<and>
   count (mset (map undirected (concat
           [[Edge 0 PRIMARY (Vertex 1 0 0, Vertex 2 1 0) (0, 0) 1 TWIN]])))
     (undirected (Edge 2 PRIMARY (Vertex 3 5 0, Vertex 4 6 0) (0, 0) 3 TWIN)) = 0"
proof -
  have a: "collectVoronoiWires (Diagram
     [Edge 0 PRIMARY (Vertex 1 0 0, Vertex 2 1 0) (0, 0) 1 PRIMARY,
      Edge 1 PRIMARY (Vertex 2 1 0, Vertex 1 0 0) (0, 0) 0 PRIMARY])
   = Inr [[Edge 0 PRIMARY (Vertex 1 0 0, Vertex 2 1 0) (0, 0) 1 PRIMARY,
           Edge 1 PRIMARY (Vertex 2 1 0, Vertex 1 0 0) (0, 0) 0 PRIMARY]]"
    by (simp add: collectVoronoiWires_def build_vertex.simps add_edge_def initial_knots_def
      collect_step_def lookup_def traverse_def consume_def Twin_def Let_def PRIMARY_def)
  have b: "collectVoronoiWires (Diagram
     [Edge 0 PRIMARY (Vertex 1 0 0, Vertex 2 1 0) (0, 0) 1 TWIN,
      Edge 2 PRIMARY (Vertex 3 5 0, Vertex 4 6 0) (0, 0) 3 TWIN,
      Edge 4 PRIMARY (Vertex 4 6 0, Vertex 5 6 1) (0, 0) 5 TWIN,
      Edge 6 PRIMARY (Vertex 5 6 1, Vertex 3 5 0) (0, 0) 7 TWIN])
   = Inr [[Edge 0 PRIMARY (Vertex 1 0 0, Vertex 2 1 0) (0, 0) 1 TWIN]]"
    by (simp add: collectVoronoiWires_def build_vertex.simps add_edge_def initial_knots_def
      collect_step_def lookup_def traverse_def consume_def Twin_def Let_def PRIMARY_def TWIN_def)
  have c: "count (mset (map undirected (concat
           [[Edge 0 PRIMARY (Vertex 1 0 0, Vertex 2 1 0) (0, 0) 1 PRIMARY,
             Edge 1 PRIMARY (Vertex 2 1 0, Vertex 1 0 0) (0, 0) 0 PRIMARY]])))
     (undirected (Edge 0 PRIMARY (Vertex 1 0 0, Vertex 2 1 0) (0, 0) 1 PRIMARY)) = 2"
    by (auto simp: undirected_def Twin_def)
  have e: "count (mset (map undirected (concat
           [[Edge 0 PRIMARY (Vertex 1 0 0, Vertex 2 1 0) (0, 0) 1 TWIN]])))
     (undirected (Edge 2 PRIMARY (Vertex 3 5 0, Vertex 4 6 0) (0, 0) 3 TWIN)) = 0"
    by (auto simp: undirected_def Twin_def doubleton_eq_iff)
  show ?thesis
    apply (intro conjI)
    apply (simp add: primary_edges_def)
    apply (simp add: Twin_def)
    apply (simp add: Twin_def)
    apply (rule a)
    apply (rule c)
    apply (rule b)
    apply (rule e)
    done
qed

end
